theory Spec2Isabelle
  imports Complex_Main
begin

unbundle bit_operations_syntax

section \<open>Data model of \<open>huffman_table.cc\<close>\<close>

text \<open>
  Unsigned machine integers are natural numbers with the truncation written out:
  \<open>u16\<close> is the value an expression has once it is stored in a \<open>uint16_t\<close>,
  \<open>u8\<close> the same for a \<open>uint8_t\<close>. The shifts and masks of the source are
  \<open>push_bit\<close>, \<open>drop_bit\<close>, \<open>AND\<close> and \<open>OR\<close> on \<open>nat\<close>.
\<close>

definition u16 :: "nat \<Rightarrow> nat" where
  "u16 x = x mod 65536"

definition u8 :: "nat \<Rightarrow> nat" where
  "u8 x = x mod 256"

text \<open>\<open>Buffer\<close> is a vector of bytes (the code-length arrays).\<close>

type_synonym Buffer = "nat list"

text \<open>
  Modelled from the spec: \<open>kMaxHuffmanBits\<close> is declared in \<open>huffman_table.h\<close>,
  which is not among the sources; the spec counts symbols per length
  \<open>len_count[1..15]\<close>.
\<close>

definition kMaxHuffmanBits :: nat where
  "kMaxHuffmanBits = 15"

definition kPermutations :: "nat list" where
  "kPermutations = [16, 17, 18, 0, 8, 7, 9, 6, 10, 5, 11, 4, 12, 3, 13, 2, 14, 1, 15]"

text \<open>
  \<open>CodeIndexPair\<close> is declared in \<open>huffman_table.h\<close>, which is not among the
  sources. It has the fields \<open>code\<close>, the bit-reversed Huffman code of a symbol, and
  \<open>index\<close>, the symbol's position in the code-length array. Both fields are
  \<open>uint16_t\<close>: every store into them is written with \<open>u16\<close> below.
\<close>

datatype CodeIndexPair = CodeIndexPair (cip_code: nat) (cip_index: nat)

datatype Error = kInsufficientInput | kInsufficientOutput | kInvalidInput

section \<open>\<open>InitHuffmanCodes\<close>\<close>

text \<open>
  Step 1, \<open>for (auto len : lens) len_count_[len]++\<close>, on the \<open>uint16_t\<close> counters.
  The arrays have \<open>kMaxHuffmanBits + 1\<close> entries; a length above \<open>kMaxHuffmanBits\<close>
  indexes outside them in the source (undefined behaviour), so every statement below is
  about arrays whose entries are at most \<open>kMaxHuffmanBits\<close>.
\<close>

fun count_lens :: "Buffer \<Rightarrow> nat list \<Rightarrow> nat list" where
  "count_lens [] len_count = len_count"
| "count_lens (len # lens) len_count =
     count_lens lens (len_count[len := u16 (len_count ! len + 1)])"

text \<open>
  \<open>for (*max_bits = kMaxHuffmanBits; *max_bits >= 1; (*max_bits)--)
       if (len_count_[*max_bits] != 0) break;\<close>
\<close>

fun find_max_bits :: "nat list \<Rightarrow> nat \<Rightarrow> nat" where
  "find_max_bits len_count 0 = 0"
| "find_max_bits len_count (Suc n) =
     (if len_count ! Suc n \<noteq> 0 then Suc n else find_max_bits len_count n)"

text \<open>
  \<open>for (size_t idx = 1; idx <= *max_bits; idx++)
       if (len_count_[idx] > (1 << idx)) return false;\<close>
\<close>

definition oversubscribed :: "nat list \<Rightarrow> nat \<Rightarrow> bool" where
  "oversubscribed len_count max_bits =
     list_ex (\<lambda>idx. len_count ! idx > push_bit idx 1) [1..<Suc max_bits]"

text \<open>
  Step 2: \<open>code = (code + len_count_[bits - 1]) << 1; next_code_[bits] = code;\<close>
  for \<open>bits\<close> from 1 to \<open>kMaxHuffmanBits\<close>, with \<open>code\<close> a \<open>uint16_t\<close>.
  The state of the loop is the pair of \<open>code\<close> and the array \<open>next_code_\<close>.
\<close>

definition next_code_step :: "nat list \<Rightarrow> nat \<Rightarrow> nat \<times> nat list \<Rightarrow> nat \<times> nat list" where
  "next_code_step len_count bits st =
     (let code = u16 (push_bit 1 (fst st + len_count ! (bits - 1)))
      in (code, (snd st)[bits := code]))"

definition first_codes :: "nat list \<Rightarrow> nat list" where
  "first_codes len_count =
     snd (fold (next_code_step len_count) [1..<Suc kMaxHuffmanBits]
            (0, replicate (kMaxHuffmanBits + 1) 0))"

text \<open>
  The reversal loop: \<open>cip.code <<= 1; cip.code |= tmp_code & 1U; tmp_code >>= 1;\<close>
  repeated \<open>len\<close> times.
\<close>

fun reverse_code :: "nat \<Rightarrow> nat \<Rightarrow> nat \<Rightarrow> nat" where
  "reverse_code 0 c tmp_code = c"
| "reverse_code (Suc r) c tmp_code =
     reverse_code r (u16 (push_bit 1 c) OR (tmp_code AND 1)) (drop_bit 1 tmp_code)"

text \<open>
  Step 3: the loop over \<open>idx\<close> that pushes one pair per symbol of nonzero length and
  increments \<open>next_code_[len]\<close>. The first argument is the part of \<open>lens\<close> still to
  be visited, the second the current \<open>idx\<close>. \<open>cip.index = idx\<close> stores the
  \<open>size_t\<close> counter in the 16-bit field, so from the 65537th entry on the stored
  index is \<open>idx\<close> modulo 65536.
\<close>

fun assign_codes :: "Buffer \<Rightarrow> nat \<Rightarrow> nat list \<Rightarrow> CodeIndexPair list" where
  "assign_codes [] idx next_code = []"
| "assign_codes (len # lens) idx next_code =
     (if len = 0 then assign_codes lens (Suc idx) next_code
      else CodeIndexPair (reverse_code len 0 (next_code ! len)) (u16 idx)
             # assign_codes lens (Suc idx) (next_code[len := u16 (next_code ! len + 1)]))"

text \<open>
  \<open>len_counts lens\<close> is the array \<open>len_count_\<close> after step 1, started from
  zeroes. \<open>InitHuffmanCodes\<close> returns \<open>None\<close> where the source returns \<open>false\<close>, and
  otherwise the new \<open>codeindexpairs_\<close> and \<open>*max_bits\<close>. The warning that is logged
  when no length is nonzero changes nothing.
\<close>

definition len_counts :: "Buffer \<Rightarrow> nat list" where
  "len_counts lens = count_lens lens (replicate (kMaxHuffmanBits + 1) 0)"

definition InitHuffmanCodes :: "Buffer \<Rightarrow> (CodeIndexPair list \<times> nat) option" where
  "InitHuffmanCodes lens =
     (let len_count = len_counts lens;
          max_bits = find_max_bits len_count kMaxHuffmanBits
      in if oversubscribed len_count max_bits then None
         else Some (assign_codes lens 0 (first_codes (len_count[0 := 0])), max_bits))"

section \<open>\<open>BuildHuffmanCodes\<close> and \<open>BuildHuffmanReverseCodes\<close>\<close>

text \<open>
  \<open>std::sort\<close> with the comparator \<open>lens[a.index] > lens[b.index]\<close>: descending
  code length. \<open>std::sort\<close> leaves the relative order of pairs of equal length
  open; the model fixes one such order. The lemmas on the table below are proved of
  \<open>fill_hcodes\<close> on any list of pairs, whatever its order.
\<close>

definition sort_by_length :: "Buffer \<Rightarrow> CodeIndexPair list \<Rightarrow> CodeIndexPair list" where
  "sort_by_length lens cips = rev (sort_key (\<lambda>cip. lens ! cip_index cip) cips)"

text \<open>
  The body of the loop over the sorted pairs:
  \<open>(*hcodes)[cip.code] = cip.index | 0x8000\<close>, then for \<open>idx\<close> from 1 below
  \<open>1 << fill_bits\<close> the slot \<open>(idx << lens[cip.index]) | cip.code\<close> is claimed
  unless its valid bit is already set. The entries are \<open>uint16_t\<close>.
\<close>

definition fill_slot :: "nat \<Rightarrow> CodeIndexPair \<Rightarrow> nat \<Rightarrow> nat list \<Rightarrow> nat list" where
  "fill_slot len cip idx hcodes =
     (let location = push_bit len idx OR cip_code cip
      in if hcodes ! location AND 0x8000 = 0
         then hcodes[location := u16 (cip_index cip OR 0x8000)] else hcodes)"

definition fill_code :: "Buffer \<Rightarrow> nat \<Rightarrow> CodeIndexPair \<Rightarrow> nat list \<Rightarrow> nat list" where
  "fill_code lens max_bits cip hcodes =
     (let len = lens ! cip_index cip;
          fill_bits = max_bits - len
      in fold (fill_slot len cip) [1..<push_bit fill_bits 1]
           (hcodes[cip_code cip := u16 (cip_index cip OR 0x8000)]))"

definition fill_hcodes :: "Buffer \<Rightarrow> nat \<Rightarrow> CodeIndexPair list \<Rightarrow> nat list \<Rightarrow> nat list" where
  "fill_hcodes lens max_bits cips hcodes = fold (fill_code lens max_bits) cips hcodes"

text \<open>
  \<open>BuildHuffmanCodes\<close>. The \<open>memset\<close> zeroes the first \<open>1 << *max_bits\<close> entries
  of \<open>hcodes\<close> (\<open>Only zero out the part of hcodes which is valuable\<close>); the loop
  writes, and every lookup reads, only below that bound. The model returns this part of
  the table: a list of \<open>2 ^ max_bits\<close> entries.
\<close>

definition BuildHuffmanCodes :: "Buffer \<Rightarrow> (nat list \<times> nat) option" where
  "BuildHuffmanCodes lens =
     (case InitHuffmanCodes lens of
        None \<Rightarrow> None
      | Some (codeindexpairs, max_bits) \<Rightarrow>
          Some (fill_hcodes lens max_bits (sort_by_length lens codeindexpairs)
                  (replicate (push_bit max_bits 1) 0),
                max_bits))"

text \<open>
  \<open>BuildHuffmanReverseCodes\<close>: the pairs sorted by ascending index, then one pass over
  \<open>idx < rcodes->size()\<close> that consumes the pairs from the front. The second
  argument of \<open>fill_rcodes\<close> is \<open>idx\<close>, the third the number of entries left.
\<close>

fun fill_rcodes :: "CodeIndexPair list \<Rightarrow> nat \<Rightarrow> nat \<Rightarrow> nat list" where
  "fill_rcodes cips idx 0 = []"
| "fill_rcodes [] idx (Suc n) = 0 # fill_rcodes [] (Suc idx) n"
| "fill_rcodes (cip # cips) idx (Suc n) =
     (if idx = cip_index cip then u16 (cip_code cip) # fill_rcodes cips (Suc idx) n
      else 0 # fill_rcodes (cip # cips) (Suc idx) n)"

definition BuildHuffmanReverseCodes :: "Buffer \<Rightarrow> nat \<Rightarrow> (nat list \<times> nat) option" where
  "BuildHuffmanReverseCodes lens rcodes_size =
     (case InitHuffmanCodes lens of
        None \<Rightarrow> None
      | Some (codeindexpairs, max_bits) \<Rightarrow>
          Some (fill_rcodes (sort_key cip_index codeindexpairs) 0 rcodes_size, max_bits))"

section \<open>Bit reader and bit writer\<close>

text \<open>
  Modelled from the spec: the bit reader and the bit writer (\<open>bit_reader.cc\<close>,
  \<open>bit_writer.cc\<close>) are not among the sources. The spec: a bit stream is a sequence
  of bits packed LSB-first into bytes; \<open>CacheBits(n)\<close> fails unless \<open>n\<close> bits
  are available; \<open>ReadBits(n)\<close> returns the next \<open>n\<close> bits as an unsigned integer
  without advancing; \<open>DropBits(n)\<close> advances past \<open>n\<close> bits;
  \<open>WriteBits(n, value)\<close> packs \<open>value\<close> LSB-first and fails when the target
  buffer is exhausted. The reader is the list of bits not yet dropped, in stream order;
  the writer is the list of bits written and the capacity of its buffer in bits.
\<close>

fun bits_value :: "bool list \<Rightarrow> nat" where
  "bits_value [] = 0"
| "bits_value (b # bs) = (if b then 1 else 0) + 2 * bits_value bs"

fun value_bits :: "nat \<Rightarrow> nat \<Rightarrow> bool list" where
  "value_bits 0 v = []"
| "value_bits (Suc n) v = odd v # value_bits n (v div 2)"

type_synonym BitReader = "bool list"

definition CacheBits :: "nat \<Rightarrow> BitReader \<Rightarrow> bool" where
  "CacheBits nbits br = (nbits \<le> length br)"

definition ReadBits :: "nat \<Rightarrow> BitReader \<Rightarrow> nat" where
  "ReadBits nbits br = bits_value (take nbits br)"

definition DropBits :: "nat \<Rightarrow> BitReader \<Rightarrow> BitReader" where
  "DropBits nbits br = drop nbits br"

record BitWriter =
  out_bits :: "bool list"
  capacity :: nat

definition WriteBits :: "nat \<Rightarrow> nat \<Rightarrow> BitWriter \<Rightarrow> BitWriter option" where
  "WriteBits nbits v bw =
     (if length (out_bits bw) + nbits \<le> capacity bw
      then Some (bw\<lparr>out_bits := out_bits bw @ value_bits nbits v\<rparr>) else None)"

section \<open>Helpers declared in the header\<close>

text \<open>
  Modelled from the spec: \<open>CheckHuffmanArrayLengths\<close>, \<open>CodeAlphabet\<close> and
  \<open>CodeHuffman\<close> are defined in \<open>huffman_table.h\<close>, which is not among the sources.
  The spec: the ranges are \<open>HLIT + 257 \<le> 286\<close>, \<open>HDIST + 1 \<le> 30\<close>,
  \<open>HCLEN + 4 \<le> 19\<close>; a forward-table entry stores the decoded symbol in bits
  0..14 and a valid bit at bit 15, and the lookup of the next \<open>max_bits\<close> bits in the
  meta table returns the symbol and its number of bits; the reverse table is indexed by
  symbol and holds its bit-reversed code.
\<close>

definition CheckHuffmanArrayLengths :: "nat \<Rightarrow> nat \<Rightarrow> nat \<Rightarrow> bool" where
  "CheckHuffmanArrayLengths num_lit_len num_distance num_codes =
     (\<not> (num_lit_len > 286 \<or> num_distance > 30 \<or> num_codes > 19))"

definition CodeAlphabet :: "Buffer \<Rightarrow> nat list \<Rightarrow> nat \<Rightarrow> (nat \<times> nat) option" where
  "CodeAlphabet code_lens code_hcodes bits =
     (let hc = code_hcodes ! bits;
          alphabet = hc AND 0x7FFF
      in if hc AND 0x8000 = 0 then None else Some (alphabet, code_lens ! alphabet))"

definition CodeHuffman :: "Buffer \<Rightarrow> nat list \<Rightarrow> nat \<Rightarrow> (nat \<times> nat) option" where
  "CodeHuffman code_lens code_rcodes alphabet =
     (if alphabet < length code_lens
      then Some (code_rcodes ! alphabet, code_lens ! alphabet) else None)"

section \<open>\<open>BuildHuffmanCodeLengths\<close>, bits to puff (the \<open>BitReader\<close> overload)\<close>

text \<open>
  The state of the loop is \<open>(br, buffer, idx, lens)\<close>: \<open>buffer\<close> is the list of the
  bytes stored so far at \<open>buffer[0..index)\<close>, so \<open>index\<close> is its length and
  \<open>buffer[index++] = v\<close> appends \<open>v\<close>. \<open>buf_len\<close> is \<open>*length\<close> on entry.
  \<open>step_br\<close> is one iteration of the loop body.
\<close>

type_synonym br_state = "BitReader \<times> Buffer \<times> nat \<times> Buffer"

fun step_br ::
  "Buffer \<Rightarrow> nat list \<Rightarrow> nat \<Rightarrow> nat \<Rightarrow> br_state \<Rightarrow> Error + br_state" where
  "step_br code_lens code_hcodes max_bits buf_len (br, buffer, idx, lens) =
     (if \<not> CacheBits max_bits br then Inl kInsufficientInput
      else case CodeAlphabet code_lens code_hcodes (ReadBits max_bits br) of
        None \<Rightarrow> Inl kInvalidInput
      | Some (code, nbits) \<Rightarrow>
          if \<not> length buffer < buf_len then Inl kInsufficientOutput
          else let br = DropBits nbits br in
            if code < 16 then Inr (br, buffer @ [u8 code], idx + 1, lens @ [u8 code])
            else if \<not> code < 19 then Inl kInvalidInput
            else if code = 16 then
              (if \<not> idx \<noteq> 0 then Inl kInvalidInput
               else if \<not> CacheBits 2 br then Inl kInsufficientInput
               else let copy_num = 3 + ReadBits 2 br;
                        copy_val = lens ! (idx - 1)
                    in Inr (DropBits 2 br, buffer @ [u8 (16 + ReadBits 2 br)],
                            idx + copy_num, lens @ replicate copy_num copy_val))
            else if code = 17 then
              (if \<not> CacheBits 3 br then Inl kInsufficientInput
               else let copy_num = 3 + ReadBits 3 br
                    in Inr (DropBits 3 br, buffer @ [u8 (20 + ReadBits 3 br)],
                            idx + copy_num, lens @ replicate copy_num 0))
            else
              (if \<not> CacheBits 7 br then Inl kInsufficientInput
               else let copy_num = 11 + ReadBits 7 br
                    in Inr (DropBits 7 br, buffer @ [u8 (28 + ReadBits 7 br)],
                            idx + copy_num, lens @ replicate copy_num 0)))"

function loop_br ::
  "Buffer \<Rightarrow> nat list \<Rightarrow> nat \<Rightarrow> nat \<Rightarrow> nat \<Rightarrow> br_state \<Rightarrow> Error + br_state" where
  "loop_br code_lens code_hcodes max_bits buf_len num_codes (br, buffer, idx, lens) =
     (if idx < num_codes
      then case step_br code_lens code_hcodes max_bits buf_len (br, buffer, idx, lens) of
             Inl e \<Rightarrow> Inl e
           | Inr st \<Rightarrow> loop_br code_lens code_hcodes max_bits buf_len num_codes st
      else Inr (br, buffer, idx, lens))"
  by pat_completeness auto
termination
  by (relation "measure (\<lambda>(cl, hc, mb, bl, num_codes, br, buffer, idx, lens). num_codes - idx)")
     (auto simp: Let_def split: if_splits option.splits)

text \<open>
  The result is the reader, the bytes stored (whose number is the new \<open>*length\<close>) and
  \<open>lens\<close>.
\<close>

definition BuildHuffmanCodeLengths_br ::
  "Buffer \<Rightarrow> nat list \<Rightarrow> BitReader \<Rightarrow> nat \<Rightarrow> nat \<Rightarrow> nat
     \<Rightarrow> Error + (BitReader \<times> Buffer \<times> Buffer)" where
  "BuildHuffmanCodeLengths_br code_lens code_hcodes br buf_len max_bits num_codes =
     (case loop_br code_lens code_hcodes max_bits buf_len num_codes (br, [], 0, []) of
        Inl e \<Rightarrow> Inl e
      | Inr (br', buffer, idx, lens) \<Rightarrow> Inr (br', buffer, lens))"

section \<open>\<open>BuildHuffmanCodeLengths\<close>, puff to bits (the \<open>BitWriter\<close> overload)\<close>

text \<open>
  The state of the loop is \<open>(bw, index, idx, lens)\<close>; \<open>buffer\<close> holds the
  \<open>*length\<close> bytes the function may read. The \<open>default\<close> branch of the switch
  leaves \<open>copy_num = 0\<close>.
\<close>

type_synonym bw_state = "BitWriter \<times> nat \<times> nat \<times> Buffer"

fun step_bw ::
  "Buffer \<Rightarrow> nat list \<Rightarrow> Buffer \<Rightarrow> bw_state \<Rightarrow> Error + bw_state" where
  "step_bw code_lens code_rcodes buffer (bw, index, idx, lens) =
     (if \<not> index < length buffer then Inl kInsufficientInput
      else let pcode = buffer ! index; index = index + 1 in
        if \<not> pcode \<le> 155 then Inl kInvalidInput
        else let code = (if pcode < 16 then pcode else if pcode < 20 then 16
                         else if pcode < 28 then 17 else 18) in
          case CodeHuffman code_lens code_rcodes code of
            None \<Rightarrow> Inl kInvalidInput
          | Some (hcode, nbits) \<Rightarrow>
             (case WriteBits nbits hcode bw of
                None \<Rightarrow> Inl kInsufficientOutput
              | Some bw \<Rightarrow>
                 if code < 16 then Inr (bw, index, idx + 1, lens @ [code])
                 else if code = 16 then
                   (if \<not> idx \<noteq> 0 then Inl kInvalidInput
                    else case WriteBits 2 (pcode - 16) bw of
                      None \<Rightarrow> Inl kInsufficientOutput
                    | Some bw \<Rightarrow>
                        let copy_num = 3 + pcode - 16;
                            copy_val = lens ! (idx - 1)
                        in Inr (bw, index, idx + copy_num, lens @ replicate copy_num copy_val))
                 else if code = 17 then
                   (case WriteBits 3 (pcode - 20) bw of
                      None \<Rightarrow> Inl kInsufficientOutput
                    | Some bw \<Rightarrow>
                        let copy_num = 3 + pcode - 20
                        in Inr (bw, index, idx + copy_num, lens @ replicate copy_num 0))
                 else if code = 18 then
                   (case WriteBits 7 (pcode - 28) bw of
                      None \<Rightarrow> Inl kInsufficientOutput
                    | Some bw \<Rightarrow>
                        let copy_num = 11 + pcode - 28
                        in Inr (bw, index, idx + copy_num, lens @ replicate copy_num 0))
                 else Inr (bw, index, idx, lens)))"

function loop_bw ::
  "Buffer \<Rightarrow> nat list \<Rightarrow> Buffer \<Rightarrow> nat \<Rightarrow> bw_state \<Rightarrow> Error + bw_state" where
  "loop_bw code_lens code_rcodes buffer num_codes (bw, index, idx, lens) =
     (if idx < num_codes
      then case step_bw code_lens code_rcodes buffer (bw, index, idx, lens) of
             Inl e \<Rightarrow> Inl e
           | Inr st \<Rightarrow> loop_bw code_lens code_rcodes buffer num_codes st
      else Inr (bw, index, idx, lens))"
  by pat_completeness auto
termination
  by (relation "measure (\<lambda>(cl, rc, buffer, num_codes, bw, index, idx, lens). num_codes - idx)")
     (auto simp: Let_def split: if_splits option.splits)

text \<open>
  The result is the writer, the number of bytes read (the new \<open>*length\<close>) and
  \<open>lens\<close>.
\<close>

definition BuildHuffmanCodeLengths_bw ::
  "Buffer \<Rightarrow> nat list \<Rightarrow> Buffer \<Rightarrow> BitWriter \<Rightarrow> nat
     \<Rightarrow> Error + (BitWriter \<times> nat \<times> Buffer)" where
  "BuildHuffmanCodeLengths_bw code_lens code_rcodes buffer bw num_codes =
     (case loop_bw code_lens code_rcodes buffer num_codes (bw, 0, 0, []) of
        Inl e \<Rightarrow> Inl e
      | Inr (bw', index, idx, lens) \<Rightarrow> Inr (bw', index, lens))"

section \<open>\<open>BuildDynamicHuffmanTable\<close>\<close>

text \<open>
  The members of \<open>HuffmanTable\<close> that the two functions set; the field
  \<open>tbl_code_lens\<close> is the member \<open>code_lens_\<close>, and so on. On a table that has
  just been constructed the first call sizes \<open>code_lens_\<close> to 19 entries and the
  reverse tables to 19, 286 and 30 entries; after that, each call stores every entry it
  reads later (all 19 permuted slots of \<open>code_lens_\<close>, the cleared and refilled
  length arrays, the zeroed part of each forward table, every slot of each reverse
  table), so the model builds the members from the input alone. A forward table is
  represented by its first \<open>2 ^ max_bits\<close> entries (see \<open>BuildHuffmanCodes\<close>);
  a member that a direction never sizes is the empty list.
\<close>

record HuffmanTable =
  tbl_code_lens :: Buffer
  tbl_code_hcodes :: "nat list"
  tbl_code_rcodes :: "nat list"
  tbl_code_max_bits :: nat
  tbl_lit_len_lens :: Buffer
  tbl_lit_len_hcodes :: "nat list"
  tbl_lit_len_rcodes :: "nat list"
  tbl_lit_len_max_bits :: nat
  tbl_distance_lens :: Buffer
  tbl_distance_hcodes :: "nat list"
  tbl_distance_rcodes :: "nat list"
  tbl_distance_max_bits :: nat

text \<open>
  The puff buffer that the \<open>BitReader\<close> overload fills is the list of the bytes
  stored so far. The source stores at \<open>buffer[index]\<close> either one past the bytes
  stored (a new byte) or over the last of them (the low nibble of a packed byte).
\<close>

definition store :: "Buffer \<Rightarrow> nat \<Rightarrow> nat \<Rightarrow> Buffer" where
  "store buffer index v =
     (if index < length buffer then buffer[index := u8 v] else take index buffer @ [u8 v])"

text \<open>
  \<open>for (; idx < 19; idx++) code_lens_[kPermutations[idx]] = 0;\<close>
\<close>

definition zero_code_lens :: "nat \<Rightarrow> Buffer \<Rightarrow> Buffer" where
  "zero_code_lens num_codes code_lens =
     fold (\<lambda>idx cl. cl[kPermutations ! idx := 0]) [num_codes..<19] code_lens"

subsection \<open>Bits to puff\<close>

text \<open>
  The loop \<open>for (; idx < num_codes; idx++)\<close> that reads the 3-bit meta code lengths
  and packs them two per byte. The first argument counts the iterations left, the
  second is \<open>idx\<close>; the state is \<open>(br, buffer, index, checked, code_lens)\<close>.
\<close>

fun read_code_lens ::
  "nat \<Rightarrow> nat \<Rightarrow> BitReader \<times> Buffer \<times> nat \<times> bool \<times> Buffer
     \<Rightarrow> Error + (BitReader \<times> Buffer \<times> nat \<times> bool \<times> Buffer)" where
  "read_code_lens 0 idx st = Inr st"
| "read_code_lens (Suc n) idx (br, buffer, index, checked, code_lens) =
     (if \<not> CacheBits 3 br then Inl kInsufficientInput
      else
        let code_lens = code_lens[kPermutations ! idx := u8 (ReadBits 3 br)];
            buffer = (if checked then store buffer index (buffer ! index OR ReadBits 3 br)
                      else store buffer index (push_bit 4 (ReadBits 3 br)));
            index = (if checked then index + 1 else index)
        in read_code_lens n (Suc idx) (DropBits 3 br, buffer, index, \<not> checked, code_lens))"

text \<open>
  The first part of the function, up to the meta forward table: the result is
  \<open>(br, buffer, index, num_lit_len, num_distance, code_lens, code_hcodes,
  code_max_bits)\<close>. \<open>buf_len\<close> is \<open>*length\<close> on entry.
\<close>

definition dynamic_header_br ::
  "BitReader \<Rightarrow> nat
     \<Rightarrow> Error + (BitReader \<times> Buffer \<times> nat \<times> nat \<times> nat \<times> Buffer \<times> nat list \<times> nat)" where
  "dynamic_header_br br buf_len =
     (if \<not> 3 \<le> buf_len then Inl kInsufficientOutput
      else if \<not> CacheBits 14 br then Inl kInsufficientInput
      else
        let buffer = store [] 0 (ReadBits 5 br);
            num_lit_len = ReadBits 5 br + 257;
            br = DropBits 5 br;
            buffer = store buffer 1 (ReadBits 5 br);
            num_distance = ReadBits 5 br + 1;
            br = DropBits 5 br;
            buffer = store buffer 2 (ReadBits 4 br);
            num_codes = ReadBits 4 br + 4;
            br = DropBits 4 br;
            index = 3
        in if \<not> CheckHuffmanArrayLengths num_lit_len num_distance num_codes
           then Inl kInvalidInput
           else if \<not> (buf_len - index \<ge> (num_codes + 1) div 2) then Inl kInsufficientOutput
           else (case read_code_lens num_codes 0 (br, buffer, index, False, replicate 19 0) of
                   Inl e \<Rightarrow> Inl e
                 | Inr (br, buffer, index, checked, code_lens) \<Rightarrow>
                     let index = (if checked then index + 1 else index);
                         code_lens = zero_code_lens num_codes code_lens
                     in (case BuildHuffmanCodes code_lens of
                           None \<Rightarrow> Inl kInvalidInput
                         | Some (code_hcodes, code_max_bits) \<Rightarrow>
                             Inr (br, buffer, index, num_lit_len, num_distance,
                                  code_lens, code_hcodes, code_max_bits))))"

text \<open>
  The whole function. The callee writes at \<open>buffer + index\<close>, so the bytes it
  returns follow the first \<open>index\<close> bytes of \<open>buffer\<close>. The result is the table,
  the reader and the puff bytes; their number is the new \<open>*length\<close>.
\<close>

definition BuildDynamicHuffmanTable_br ::
  "BitReader \<Rightarrow> nat \<Rightarrow> Error + (HuffmanTable \<times> BitReader \<times> Buffer)" where
  "BuildDynamicHuffmanTable_br br buf_len =
     (case dynamic_header_br br buf_len of
        Inl e \<Rightarrow> Inl e
      | Inr (br, buffer, index, num_lit_len, num_distance, code_lens, code_hcodes, code_max_bits) \<Rightarrow>
         (case BuildHuffmanCodeLengths_br code_lens code_hcodes br (buf_len - index)
                 code_max_bits num_lit_len of
            Inl e \<Rightarrow> Inl e
          | Inr (br, written, lit_len_lens) \<Rightarrow>
             let buffer = take index buffer @ written;
                 index = index + length written
             in (case BuildHuffmanCodes lit_len_lens of
                   None \<Rightarrow> Inl kInvalidInput
                 | Some (lit_len_hcodes, lit_len_max_bits) \<Rightarrow>
                    (case BuildHuffmanCodeLengths_br code_lens code_hcodes br (buf_len - index)
                            code_max_bits num_distance of
                       Inl e \<Rightarrow> Inl e
                     | Inr (br, written, distance_lens) \<Rightarrow>
                        let buffer = take index buffer @ written;
                            index = index + length written
                        in (case BuildHuffmanCodes distance_lens of
                              None \<Rightarrow> Inl kInvalidInput
                            | Some (distance_hcodes, distance_max_bits) \<Rightarrow>
                                Inr (\<lparr>tbl_code_lens = code_lens, tbl_code_hcodes = code_hcodes,
                                      tbl_code_rcodes = [], tbl_code_max_bits = code_max_bits,
                                      tbl_lit_len_lens = lit_len_lens,
                                      tbl_lit_len_hcodes = lit_len_hcodes,
                                      tbl_lit_len_rcodes = [],
                                      tbl_lit_len_max_bits = lit_len_max_bits,
                                      tbl_distance_lens = distance_lens,
                                      tbl_distance_hcodes = distance_hcodes,
                                      tbl_distance_rcodes = [],
                                      tbl_distance_max_bits = distance_max_bits\<rparr>,
                                     br, take index buffer))))))"

subsection \<open>Puff to bits\<close>

text \<open>
  The loop that unpacks the meta code lengths and writes each in 3 bits; the state is
  \<open>(bw, index, checked, code_lens)\<close>, \<open>buffer\<close> holds the \<open>length\<close> bytes of the
  puff header.
\<close>

fun write_code_lens ::
  "nat \<Rightarrow> nat \<Rightarrow> Buffer \<Rightarrow> BitWriter \<times> nat \<times> bool \<times> Buffer
     \<Rightarrow> Error + (BitWriter \<times> nat \<times> bool \<times> Buffer)" where
  "write_code_lens 0 idx buffer st = Inr st"
| "write_code_lens (Suc n) idx buffer (bw, index, checked, code_lens) =
     (let len = (if checked then buffer ! index AND 0x0F else drop_bit 4 (buffer ! index));
          index = (if checked then index + 1 else index);
          code_lens = code_lens[kPermutations ! idx := len]
      in case WriteBits 3 len bw of
           None \<Rightarrow> Inl kInsufficientOutput
         | Some bw \<Rightarrow> write_code_lens n (Suc idx) buffer (bw, index, \<not> checked, code_lens))"

text \<open>
  The first part, up to the meta reverse table: the result is
  \<open>(bw, index, num_lit_len, num_distance, code_lens, code_rcodes, code_max_bits)\<close>.
\<close>

definition dynamic_header_bw ::
  "Buffer \<Rightarrow> BitWriter
     \<Rightarrow> Error + (BitWriter \<times> nat \<times> nat \<times> nat \<times> Buffer \<times> nat list \<times> nat)" where
  "dynamic_header_bw buffer bw =
     (if \<not> 3 \<le> length buffer then Inl kInsufficientInput
      else let num_lit_len = buffer ! 0 + 257 in
        case WriteBits 5 (buffer ! 0) bw of
          None \<Rightarrow> Inl kInsufficientOutput
        | Some bw \<Rightarrow>
           (let num_distance = buffer ! 1 + 1 in
            case WriteBits 5 (buffer ! 1) bw of
              None \<Rightarrow> Inl kInsufficientOutput
            | Some bw \<Rightarrow>
               (let num_codes = buffer ! 2 + 4 in
                case WriteBits 4 (buffer ! 2) bw of
                  None \<Rightarrow> Inl kInsufficientOutput
                | Some bw \<Rightarrow>
                   (let index = 3 in
                    if \<not> CheckHuffmanArrayLengths num_lit_len num_distance num_codes
                    then Inl kInvalidInput
                    else if \<not> (length buffer - index \<ge> (num_codes + 1) div 2)
                    then Inl kInsufficientInput
                    else (case write_code_lens num_codes 0 buffer
                                 (bw, index, False, replicate 19 0) of
                            Inl e \<Rightarrow> Inl e
                          | Inr (bw, index, checked, code_lens) \<Rightarrow>
                              let index = (if checked then index + 1 else index);
                                  code_lens = zero_code_lens num_codes code_lens
                              in (case BuildHuffmanReverseCodes code_lens 19 of
                                    None \<Rightarrow> Inl kInvalidInput
                                  | Some (code_rcodes, code_max_bits) \<Rightarrow>
                                      Inr (bw, index, num_lit_len, num_distance,
                                           code_lens, code_rcodes, code_max_bits)))))))"

text \<open>
  The second part: the two code-length sequences, with the literal/length reverse table
  built in between. The callee reads at \<open>buffer + index\<close>, that is
  \<open>drop index buffer\<close>. The result is \<open>(bw, index, table)\<close>, where the distance
  reverse table of \<open>table\<close> is not built yet.
\<close>

definition dynamic_lengths_bw ::
  "Buffer \<Rightarrow> BitWriter \<Rightarrow> Error + (BitWriter \<times> nat \<times> HuffmanTable)" where
  "dynamic_lengths_bw buffer bw =
     (case dynamic_header_bw buffer bw of
        Inl e \<Rightarrow> Inl e
      | Inr (bw, index, num_lit_len, num_distance, code_lens, code_rcodes, code_max_bits) \<Rightarrow>
         (case BuildHuffmanCodeLengths_bw code_lens code_rcodes (drop index buffer) bw
                 num_lit_len of
            Inl e \<Rightarrow> Inl e
          | Inr (bw, bytes_available, lit_len_lens) \<Rightarrow>
             let index = index + bytes_available
             in (case BuildHuffmanReverseCodes lit_len_lens 286 of
                   None \<Rightarrow> Inl kInvalidInput
                 | Some (lit_len_rcodes, lit_len_max_bits) \<Rightarrow>
                    (case BuildHuffmanCodeLengths_bw code_lens code_rcodes (drop index buffer)
                            bw num_distance of
                       Inl e \<Rightarrow> Inl e
                     | Inr (bw, bytes_available, distance_lens) \<Rightarrow>
                        Inr (bw, index + bytes_available,
                             \<lparr>tbl_code_lens = code_lens, tbl_code_hcodes = [],
                              tbl_code_rcodes = code_rcodes, tbl_code_max_bits = code_max_bits,
                              tbl_lit_len_lens = lit_len_lens, tbl_lit_len_hcodes = [],
                              tbl_lit_len_rcodes = lit_len_rcodes,
                              tbl_lit_len_max_bits = lit_len_max_bits,
                              tbl_distance_lens = distance_lens, tbl_distance_hcodes = [],
                              tbl_distance_rcodes = [], tbl_distance_max_bits = 0\<rparr>)))))"

text \<open>
  The whole function: the distance reverse table, then the test \<open>length == index\<close>.
\<close>

definition BuildDynamicHuffmanTable_bw ::
  "Buffer \<Rightarrow> BitWriter \<Rightarrow> Error + (HuffmanTable \<times> BitWriter)" where
  "BuildDynamicHuffmanTable_bw buffer bw =
     (case dynamic_lengths_bw buffer bw of
        Inl e \<Rightarrow> Inl e
      | Inr (bw, index, table) \<Rightarrow>
         (case BuildHuffmanReverseCodes (tbl_distance_lens table) 30 of
            None \<Rightarrow> Inl kInvalidInput
          | Some (distance_rcodes, distance_max_bits) \<Rightarrow>
              if \<not> length buffer = index then Inl kInvalidInput
              else Inr (table\<lparr>tbl_distance_rcodes := distance_rcodes,
                               tbl_distance_max_bits := distance_max_bits\<rparr>, bw)))"

section \<open>Notions of the specification\<close>

text \<open>
  The Kraft sum of a code-length array, in the spec's words: the sum of
  \<open>2^-lens[i]\<close> over the entries with \<open>lens[i] > 0\<close>.
\<close>

definition kraft_sum :: "Buffer \<Rightarrow> real" where
  "kraft_sum lens = (\<Sum>len\<leftarrow>filter (\<lambda>len. 0 < len) lens. 1 / 2 ^ len)"

text \<open>
  The bits of a \<open>len\<close>-bit code in reverse order: bit \<open>i\<close> of the result is bit
  \<open>len - 1 - i\<close> of \<open>c\<close>.
\<close>

definition reversed_bits :: "nat \<Rightarrow> nat \<Rightarrow> nat" where
  "reversed_bits len c = bits_value (rev (value_bits len c))"

text \<open>
  The number of symbols below \<open>s\<close> that have the same code length as \<open>s\<close>: the
  rank of \<open>s\<close> among the symbols of its length, in ascending symbol order.
\<close>

definition rank_in_length :: "Buffer \<Rightarrow> nat \<Rightarrow> nat" where
  "rank_in_length lens s = count_list (take s lens) (lens ! s)"

text \<open>
  The canonical code of the specification, in its words:
  \<open>next_code[L] = (next_code[L-1] + len_count[L-1]) << 1\<close> with
  \<open>next_code[0] = 0\<close>, where \<open>len_count[L]\<close> is the number of symbols of length
  \<open>L\<close> for \<open>L \<ge> 1\<close> (zero-length symbols are skipped, they have no code), as
  unbounded numbers; each symbol, in ascending symbol order, is assigned the next code
  of its length.
\<close>

fun spec_next_code :: "Buffer \<Rightarrow> nat \<Rightarrow> nat" where
  "spec_next_code lens 0 = 0"
| "spec_next_code lens (Suc L) =
     2 * (spec_next_code lens L + (if L = 0 then 0 else count_list lens L))"

definition canonical_code :: "Buffer \<Rightarrow> nat \<Rightarrow> nat" where
  "canonical_code lens s = spec_next_code lens (lens ! s) + rank_in_length lens s"

section \<open>Concrete headers\<close>

text \<open>
  A dynamic header with \<open>HLIT = 0\<close>, \<open>HDIST = 0\<close>, \<open>HCLEN = 14\<close> and meta
  code lengths 1 for the symbols 1 and 18, whose literal/length sequence is
  \<open>1, 1, 1\<close> followed by 254 zeroes (two runs of code 18), and the puff form of that
  header.
\<close>

definition oversubscribed_header :: "bool list" where
  "oversubscribed_header =
     [False, False, False, False, False, False, False, False, False, False, False, True,
      True, True, False, False, False, False, False, False, True, False, False, False,
      False, False, False, False, False, False, False, False, False, False, False, False,
      False, False, False, False, False, False, False, False, False, False, False, False,
      False, False, False, False, False, False, False, False, False, False, False, False,
      False, False, False, False, False, True, False, False, False, False, False, True,
      True, True, True, True, True, True, True, True, True, False, False, True, False,
      True, True, False]"

definition oversubscribed_puff :: Buffer where
  "oversubscribed_puff = [0, 0, 14, 0, 16, 0, 0, 0, 0, 0, 0, 1, 1, 1, 1, 155, 133, 1]"

text \<open>
  A meta code with the symbols 0, 16, 17 and 18, each of length 2, with the forward and
  the reverse table that the builders return for it.
\<close>

definition repeat_code_lens :: Buffer where
  "repeat_code_lens = [2, 0, 0, 0, 0, 0, 0, 0, 0, 0, 0, 0, 0, 0, 0, 0, 2, 2, 2]"

definition repeat_code_hcodes :: "nat list" where
  "repeat_code_hcodes = [32768, 32785, 32784, 32786]"

definition repeat_code_rcodes :: "nat list" where
  "repeat_code_rcodes = [0, 0, 0, 0, 0, 0, 0, 0, 0, 0, 0, 0, 0, 0, 0, 0, 2, 1, 3]"


definition single_symbol_puff :: Buffer where
  "single_symbol_puff = [0, 0, 14, 0, 16, 0, 0, 0, 0, 0, 0, 1, 155, 135, 1, 1]"

declare step_br.simps [simp del] step_bw.simps [simp del] loop_br.simps [simp del]
  loop_bw.simps [simp del]

section \<open>Counting\<close>

lemma length_count_lens: "length (count_lens lens lc) = length lc"
  by (induction lens arbitrary: lc) simp_all

lemma count_list_le_length: "count_list xs x \<le> length xs"
  by (induction xs) auto

lemma count_lens_nth:
  "L < length lc \<Longrightarrow> lc ! L < 65536 \<Longrightarrow>
     count_lens lens lc ! L = (lc ! L + count_list lens L) mod 65536"
proof (induction lens arbitrary: lc)
  case Nil
  then show ?case by simp
next
  case (Cons len lens)
  show ?case
  proof (cases "len = L")
    case True
    with Cons.prems have "count_lens (len # lens) lc ! L =
        ((lc ! L + 1) mod 65536 + count_list lens L) mod 65536"
      by (simp add: Cons.IH u16_def)
    then show ?thesis using True by (simp add: mod_add_left_eq add.assoc)
  next
    case False
    with Cons.prems show ?thesis by (simp add: Cons.IH)
  qed
qed

lemma len_counts_nth:
  "L \<le> kMaxHuffmanBits \<Longrightarrow> len_counts lens ! L = count_list lens L mod 65536"
  unfolding len_counts_def by (subst count_lens_nth) (simp_all del: replicate.simps)

lemma length_len_counts: "length (len_counts lens) = kMaxHuffmanBits + 1"
  by (simp add: len_counts_def length_count_lens)

lemma find_max_bits_zero:
  "(\<And>L. 0 < L \<Longrightarrow> L \<le> n \<Longrightarrow> lc ! L = 0) \<Longrightarrow> find_max_bits lc n = 0"
  by (induction n) simp_all

lemma find_max_bits_le: "find_max_bits lc n \<le> n"
  by (induction n) simp_all

lemma find_max_bits_ge:
  "0 < L \<Longrightarrow> L \<le> n \<Longrightarrow> lc ! L \<noteq> 0 \<Longrightarrow> L \<le> find_max_bits lc n"
  by (induction n) (auto simp: le_Suc_eq)

lemma find_max_bits_nonzero:
  "0 < find_max_bits lc n \<Longrightarrow> lc ! find_max_bits lc n \<noteq> 0"
  by (induction n) (auto split: if_splits)

lemma find_max_bits_above:
  "find_max_bits lc n < L \<Longrightarrow> L \<le> n \<Longrightarrow> lc ! L = 0"
  using find_max_bits_ge [of L n lc] by (cases "L = 0") auto

lemma oversubscribed_iff:
  "oversubscribed lc mb \<longleftrightarrow> (\<exists>idx. 1 \<le> idx \<and> idx \<le> mb \<and> 2 ^ idx < lc ! idx)"
  by (auto simp: oversubscribed_def list_ex_iff push_bit_eq_mult)

lemma oversubscribed_max_bits:
  "oversubscribed lc (find_max_bits lc n) \<longleftrightarrow> (\<exists>idx. 1 \<le> idx \<and> idx \<le> n \<and> 2 ^ idx < lc ! idx)"
proof
  assume "oversubscribed lc (find_max_bits lc n)"
  then show "\<exists>idx. 1 \<le> idx \<and> idx \<le> n \<and> 2 ^ idx < lc ! idx"
    using find_max_bits_le [of lc n] by (auto simp: oversubscribed_iff intro: order_trans)
next
  assume "\<exists>idx. 1 \<le> idx \<and> idx \<le> n \<and> 2 ^ idx < lc ! idx"
  then obtain idx where i: "1 \<le> idx" "idx \<le> n" "2 ^ idx < lc ! idx" by blast
  then have "lc ! idx \<noteq> 0" by auto
  with i have "idx \<le> find_max_bits lc n" by (intro find_max_bits_ge) auto
  with i show "oversubscribed lc (find_max_bits lc n)" by (auto simp: oversubscribed_iff)
qed

lemma InitHuffmanCodes_None_iff:
  "InitHuffmanCodes lens = None \<longleftrightarrow>
     (\<exists>L. 1 \<le> L \<and> L \<le> kMaxHuffmanBits \<and> 2 ^ L < len_counts lens ! L)"
  unfolding InitHuffmanCodes_def Let_def by (simp add: oversubscribed_max_bits)

lemma kraft_sum_Cons:
  "kraft_sum (len # lens) = (if 0 < len then 1 / 2 ^ len else 0) + kraft_sum lens"
  by (simp add: kraft_sum_def)

lemma kraft_sum_nonneg: "0 \<le> kraft_sum lens"
  by (induction lens) (simp_all add: kraft_sum_Cons kraft_sum_def)

lemma kraft_sum_count:
  "0 < L \<Longrightarrow> real (count_list lens L) / 2 ^ L \<le> kraft_sum lens"
proof (induction lens)
  case Nil
  then show ?case by (simp add: kraft_sum_def)
next
  case (Cons len lens)
  have p: "0 \<le> (1::real) / 2 ^ len" by simp
  have ih: "real (count_list lens L) / 2 ^ L \<le> kraft_sum lens"
    using Cons by simp
  show ?case
  proof (cases "len = L")
    case True
    with Cons.prems ih show ?thesis
      by (simp add: kraft_sum_Cons add_divide_distrib)
  next
    case False
    have "kraft_sum lens \<le> kraft_sum (len # lens)"
      by (simp add: kraft_sum_Cons)
    with ih have "real (count_list lens L) / 2 ^ L \<le> kraft_sum (len # lens)"
      by (rule order_trans)
    with False show ?thesis by simp
  qed
qed

lemma kraft_count_le:
  assumes "kraft_sum lens \<le> 1" "0 < L"
  shows "count_list lens L \<le> 2 ^ L"
proof -
  have "real (count_list lens L) / 2 ^ L \<le> 1"
    using kraft_sum_count [OF assms(2), of lens] assms(1) by linarith
  then have "real (count_list lens L) \<le> 2 ^ L"
    by (simp add: divide_le_eq)
  then show ?thesis
    by (metis of_nat_le_iff of_nat_numeral of_nat_power)
qed


section \<open>Evaluation on concrete inputs\<close>

lemma find_max_bits_numeral:
  "find_max_bits lc (numeral k) =
     (if lc ! numeral k \<noteq> 0 then numeral k else find_max_bits lc (pred_numeral k))"
  by (simp add: numeral_eq_Suc)

lemma reverse_code_numeral:
  "reverse_code (numeral k) c t =
     reverse_code (pred_numeral k) (u16 (push_bit 1 c) OR (t AND 1)) (drop_bit 1 t)"
  by (simp add: numeral_eq_Suc)

lemma replicate_numeral: "replicate (numeral k) x = x # replicate (pred_numeral k) x"
  by (simp add: numeral_eq_Suc)

lemma value_bits_numeral:
  "value_bits (numeral k) v = odd v # value_bits (pred_numeral k) (v div 2)"
  by (simp add: numeral_eq_Suc)

lemma fill_rcodes_numeral:
  "fill_rcodes cips idx (numeral k) =
     (case cips of
        [] \<Rightarrow> 0 # fill_rcodes [] (Suc idx) (pred_numeral k)
      | cip # rest \<Rightarrow>
          if idx = cip_index cip
          then u16 (cip_code cip) # fill_rcodes rest (Suc idx) (pred_numeral k)
          else 0 # fill_rcodes (cip # rest) (Suc idx) (pred_numeral k))"
  by (simp add: numeral_eq_Suc split: list.split)

lemma read_code_lens_numeral:
  "read_code_lens (numeral k) idx (br, buffer, index, checked, code_lens) =
     (if \<not> CacheBits 3 br then Inl kInsufficientInput
      else read_code_lens (pred_numeral k) (Suc idx)
             (DropBits 3 br,
              (if checked then store buffer index (buffer ! index OR ReadBits 3 br)
               else store buffer index (push_bit 4 (ReadBits 3 br))),
              (if checked then index + 1 else index), \<not> checked,
              code_lens[kPermutations ! idx := u8 (ReadBits 3 br)]))"
  by (simp add: numeral_eq_Suc Let_def)

lemma write_code_lens_numeral:
  "write_code_lens (numeral k) idx buffer (bw, index, checked, code_lens) =
     (case WriteBits 3 (if checked then buffer ! index AND 0x0F
                        else drop_bit 4 (buffer ! index)) bw of
        None \<Rightarrow> Inl kInsufficientOutput
      | Some bw' \<Rightarrow>
          write_code_lens (pred_numeral k) (Suc idx) buffer
            (bw', (if checked then index + 1 else index), \<not> checked,
             code_lens[kPermutations ! idx :=
               (if checked then buffer ! index AND 0x0F else drop_bit 4 (buffer ! index))]))"
  by (simp add: numeral_eq_Suc Let_def)

lemma Suc_Suc_0: "Suc (Suc 0) = 2"
  by simp

lemmas eval_init = Suc_Suc_0 InitHuffmanCodes_def len_counts_def kMaxHuffmanBits_def u16_def
  oversubscribed_def first_codes_def next_code_step_def find_max_bits_numeral
  reverse_code_numeral Let_def replicate_numeral upt_conv_Cons

lemmas eval_tables = eval_init BuildHuffmanCodes_def BuildHuffmanReverseCodes_def fill_hcodes_def
  fill_code_def fill_slot_def sort_by_length_def fill_rcodes_numeral

lemmas eval_bits = CacheBits_def ReadBits_def DropBits_def WriteBits_def value_bits_numeral
  CodeAlphabet_def CodeHuffman_def u8_def

lemmas eval_lengths = eval_bits BuildHuffmanCodeLengths_br_def BuildHuffmanCodeLengths_bw_def
  loop_br.simps loop_bw.simps step_br.simps step_bw.simps Let_def

lemmas eval_dynamic = eval_tables eval_lengths BuildDynamicHuffmanTable_br_def
  dynamic_header_br_def BuildDynamicHuffmanTable_bw_def dynamic_header_bw_def
  dynamic_lengths_bw_def read_code_lens_numeral write_code_lens_numeral store_def
  zero_code_lens_def kPermutations_def CheckHuffmanArrayLengths_def

lemma repeat_tables:
  "BuildHuffmanCodes repeat_code_lens = Some (repeat_code_hcodes, 2) \<and>
   BuildHuffmanReverseCodes repeat_code_lens 19 = Some (repeat_code_rcodes, 2)"
  by (simp add: eval_tables repeat_code_lens_def repeat_code_hcodes_def repeat_code_rcodes_def)

section \<open>The code-length loops\<close>

lemma step_bw_above_155:
  "index < length buffer \<Longrightarrow> 155 < buffer ! index \<Longrightarrow>
     step_bw code_lens code_rcodes buffer (bw, index, idx, lens) = Inl kInvalidInput"
  by (simp add: step_bw.simps)

text \<open>The loop body of the \<open>BitWriter\<close> overload, by the range of the puff byte.\<close>

lemma step_bw_length:
  assumes "index < length buffer" and "buffer ! index < 16"
  shows "step_bw code_lens code_rcodes buffer (bw, index, idx, lens) =
     (case CodeHuffman code_lens code_rcodes (buffer ! index) of
        None \<Rightarrow> Inl kInvalidInput
      | Some (hcode, nbits) \<Rightarrow>
         (case WriteBits nbits hcode bw of
            None \<Rightarrow> Inl kInsufficientOutput
          | Some bw' \<Rightarrow> Inr (bw', index + 1, idx + 1, lens @ [buffer ! index])))"
  using assms by (simp add: step_bw.simps Let_def split: option.split)

lemma step_bw_16:
  assumes "index < length buffer" and "16 \<le> buffer ! index" and "buffer ! index < 20"
  shows "step_bw code_lens code_rcodes buffer (bw, index, idx, lens) =
     (case CodeHuffman code_lens code_rcodes 16 of
        None \<Rightarrow> Inl kInvalidInput
      | Some (hcode, nbits) \<Rightarrow>
         (case WriteBits nbits hcode bw of
            None \<Rightarrow> Inl kInsufficientOutput
          | Some bw' \<Rightarrow>
             if idx = 0 then Inl kInvalidInput
             else (case WriteBits 2 (buffer ! index - 16) bw' of
                     None \<Rightarrow> Inl kInsufficientOutput
                   | Some bw'' \<Rightarrow>
                       Inr (bw'', index + 1, idx + (3 + buffer ! index - 16),
                            lens @ replicate (3 + buffer ! index - 16) (lens ! (idx - 1))))))"
  using assms by (simp add: step_bw.simps Let_def split: option.split)

lemma step_bw_17:
  assumes "index < length buffer" and "20 \<le> buffer ! index" and "buffer ! index < 28"
  shows "step_bw code_lens code_rcodes buffer (bw, index, idx, lens) =
     (case CodeHuffman code_lens code_rcodes 17 of
        None \<Rightarrow> Inl kInvalidInput
      | Some (hcode, nbits) \<Rightarrow>
         (case WriteBits nbits hcode bw of
            None \<Rightarrow> Inl kInsufficientOutput
          | Some bw' \<Rightarrow>
             (case WriteBits 3 (buffer ! index - 20) bw' of
                None \<Rightarrow> Inl kInsufficientOutput
              | Some bw'' \<Rightarrow>
                  Inr (bw'', index + 1, idx + (3 + buffer ! index - 20),
                       lens @ replicate (3 + buffer ! index - 20) 0))))"
  using assms by (simp add: step_bw.simps Let_def split: option.split)

lemma step_bw_18:
  assumes "index < length buffer" and "28 \<le> buffer ! index" and "buffer ! index \<le> 155"
  shows "step_bw code_lens code_rcodes buffer (bw, index, idx, lens) =
     (case CodeHuffman code_lens code_rcodes 18 of
        None \<Rightarrow> Inl kInvalidInput
      | Some (hcode, nbits) \<Rightarrow>
         (case WriteBits nbits hcode bw of
            None \<Rightarrow> Inl kInsufficientOutput
          | Some bw' \<Rightarrow>
             (case WriteBits 7 (buffer ! index - 28) bw' of
                None \<Rightarrow> Inl kInsufficientOutput
              | Some bw'' \<Rightarrow>
                  Inr (bw'', index + 1, idx + (11 + buffer ! index - 28),
                       lens @ replicate (11 + buffer ! index - 28) 0))))"
  using assms by (simp add: step_bw.simps Let_def split: option.split)

lemma step_bw_cases:
  fixes buffer :: Buffer
  assumes "index < length buffer"
  obtains "155 < buffer ! index" | "buffer ! index < 16"
  | "16 \<le> buffer ! index" "buffer ! index < 20"
  | "20 \<le> buffer ! index" "buffer ! index < 28"
  | "28 \<le> buffer ! index" "buffer ! index \<le> 155"
  by linarith

lemma step_bw_InsufficientInput:
  "step_bw code_lens code_rcodes buffer (bw, index, idx, lens) = Inl kInsufficientInput
     \<longleftrightarrow> \<not> index < length buffer"
proof (cases "index < length buffer")
  case True
  then have "step_bw code_lens code_rcodes buffer (bw, index, idx, lens)
               \<noteq> Inl kInsufficientInput"
    by (cases rule: step_bw_cases)
      (simp_all add: True step_bw_above_155 step_bw_length step_bw_16 step_bw_17 step_bw_18
        split: option.split)
  with True show ?thesis by simp
next
  case False
  then show ?thesis by (simp add: step_bw.simps)
qed

lemma step_bw_index:
  assumes "step_bw code_lens code_rcodes buffer (bw, index, idx, lens)
             = Inr (bw', index', idx', lens')"
  shows "index < length buffer \<and> index' = index + 1"
proof -
  have lt: "index < length buffer"
    using assms by (cases "index < length buffer") (simp_all add: step_bw.simps)
  from lt assms have "index' = index + 1"
    by (cases rule: step_bw_cases)
      (auto simp: lt step_bw_above_155 step_bw_length step_bw_16 step_bw_17 step_bw_18
        split: option.splits if_splits)
  with lt show ?thesis by simp
qed

lemma step_bw_append:
  "index < length buffer \<Longrightarrow>
     step_bw code_lens code_rcodes (buffer @ extra) (bw, index, idx, lens)
       = step_bw code_lens code_rcodes buffer (bw, index, idx, lens)"
  by (simp add: step_bw.simps nth_append)

lemma loop_bw_next_byte_above_155:
  "loop_bw code_lens code_rcodes pre num_codes (bw, index, idx, lens) = Inl kInsufficientInput
     \<Longrightarrow> index \<le> length pre \<Longrightarrow> 155 < p
     \<Longrightarrow> loop_bw code_lens code_rcodes (pre @ p # rest) num_codes (bw, index, idx, lens)
           = Inl kInvalidInput"
proof (induction code_lens code_rcodes pre num_codes "(bw, index, idx, lens)"
    arbitrary: bw index idx lens rule: loop_bw.induct)
  case (1 code_lens code_rcodes buffer num_codes bw index idx lens)
  from "1.prems"(1) have lt: "idx < num_codes"
    by (auto simp: loop_bw.simps split: if_splits)
  show ?case
  proof (cases "step_bw code_lens code_rcodes buffer (bw, index, idx, lens)")
    case (Inl e)
    with "1.prems"(1) lt have "e = kInsufficientInput"
      by (simp add: loop_bw.simps)
    with Inl have "\<not> index < length buffer"
      by (simp add: step_bw_InsufficientInput)
    with "1.prems"(2) have "index = length buffer" by simp
    with "1.prems"(3) lt show ?thesis
      by (simp add: loop_bw.simps [of _ _ "buffer @ p # rest"] step_bw_above_155)
  next
    case (Inr st)
    obtain bw' index' idx' lens' where st: "st = (bw', index', idx', lens')"
      by (cases st) auto
    from Inr st have i: "index < length buffer" "index' = index + 1"
      using step_bw_index by blast+
    from Inr st "1.prems"(1) lt
    have "loop_bw code_lens code_rcodes buffer num_codes (bw', index', idx', lens')
            = Inl kInsufficientInput"
      by (simp add: loop_bw.simps [of _ _ buffer num_codes bw index])
    moreover from Inr st
    have step: "step_bw code_lens code_rcodes buffer (bw, index, idx, lens)
                  = Inr (bw', index', idx', lens')"
      by simp
    ultimately
    have "loop_bw code_lens code_rcodes (buffer @ p # rest) num_codes (bw', index', idx', lens')
            = Inl kInvalidInput"
      using "1.hyps" [OF lt step] i "1.prems"(3) by simp
    with Inr st lt i show ?thesis
      by (simp add: loop_bw.simps [of _ _ "buffer @ p # rest" num_codes bw index]
          step_bw_append)
  qed
qed

lemma step_br_copy_previous_first:
  assumes "CacheBits max_bits br"
    and "CodeAlphabet code_lens code_hcodes (ReadBits max_bits br) = Some (16, nbits)"
  shows "step_br code_lens code_hcodes max_bits buf_len (br, buffer, 0, lens)
           = Inl (if length buffer < buf_len then kInvalidInput else kInsufficientOutput)"
  using assms by (simp add: step_br.simps)

lemma step_bw_copy_previous_first:
  assumes "index < length buffer" and "16 \<le> buffer ! index" and "buffer ! index \<le> 19"
  shows "step_bw code_lens code_rcodes buffer (bw, index, 0, lens)
           = Inl (if 16 < length code_lens
                     \<and> \<not> length (out_bits bw) + code_lens ! 16 \<le> capacity bw
                  then kInsufficientOutput else kInvalidInput)"
  using assms by (simp add: step_bw.simps CodeHuffman_def WriteBits_def)

lemma copy_previous_first_without_room:
  "BuildHuffmanCodeLengths_br repeat_code_lens repeat_code_hcodes [False, True] 0 2 1
     = Inl kInsufficientOutput
   \<and> BuildHuffmanCodeLengths_bw repeat_code_lens repeat_code_rcodes [17]
        \<lparr>out_bits = [], capacity = 1\<rparr> 1 = Inl kInsufficientOutput"
  by (simp add: eval_lengths repeat_code_lens_def repeat_code_hcodes_def
      repeat_code_rcodes_def cong: let_weak_cong)

section \<open>Bits\<close>

lemma length_value_bits [simp]: "length (value_bits n v) = n"
  by (induction n arbitrary: v) simp_all

lemma bits_value_append:
  "bits_value (xs @ ys) = bits_value xs + 2 ^ length xs * bits_value ys"
  by (induction xs) (simp_all add: algebra_simps)

lemma bits_value_less: "bits_value xs < 2 ^ length xs"
  by (induction xs) auto

lemma bits_value_value_bits: "bits_value (value_bits n v) = v mod 2 ^ n"
proof (induction n arbitrary: v)
  case 0
  then show ?case by simp
next
  case (Suc n)
  have "v mod (2 * 2 ^ n) = v mod 2 + 2 * (v div 2 mod 2 ^ n)"
    by (simp add: mod_mult2_eq)
  with Suc show ?case by (simp add: odd_iff_mod_2_eq_one)
qed

lemma value_bits_bits_value:
  "n \<le> length bs \<Longrightarrow> value_bits n (bits_value bs) = take n bs"
proof (induction n arbitrary: bs)
  case 0
  then show ?case by simp
next
  case (Suc n)
  then obtain b bs' where bs: "bs = b # bs'" by (cases bs) auto
  with Suc show ?case by simp
qed

lemma reversed_bits_less: "reversed_bits len c < 2 ^ len"
  using bits_value_less [of "rev (value_bits len c)"] by (simp add: reversed_bits_def)

section \<open>The reversal loop\<close>

lemma or_low_bit: "2 * c OR (t AND 1) = 2 * c + t mod 2" for c t :: nat
proof -
  have "2 * c OR (t AND 1) = 2 * c + (t AND 1)"
    by (rule disjunctive_add [symmetric]) (auto simp: bit_simps bit_double_iff bit_1_iff)
  then show ?thesis by (simp add: and_one_eq)
qed

lemma reverse_code_eq:
  "r \<le> 16 \<Longrightarrow> c < 2 ^ (16 - r) \<Longrightarrow>
     reverse_code r c t = c * 2 ^ r + bits_value (rev (value_bits r t))"
proof (induction r arbitrary: c t)
  case 0
  then show ?case by simp
next
  case (Suc r)
  have p: "(2::nat) * 2 ^ (16 - Suc r) = 2 ^ (16 - r)"
    using Suc.prems(1) by (simp add: Suc_diff_Suc flip: power_Suc)
  have "2 * c < 2 * 2 ^ (16 - Suc r)" using Suc.prems(2) by simp
  also note p
  also have "(2::nat) ^ (16 - r) \<le> 2 ^ 16" by (intro power_increasing) auto
  finally have "2 * c < 65536" by simp
  then have "u16 (push_bit 1 c) = 2 * c"
    by (simp add: u16_def push_bit_eq_mult)
  then have u: "u16 (push_bit 1 c) OR (t AND 1) = 2 * c + t mod 2"
    by (simp only: or_low_bit)
  have "2 * c + t mod 2 < 2 * 2 ^ (16 - Suc r)"
    using Suc.prems(2) by (simp add: mult_2)
  with p have "2 * c + t mod 2 < 2 ^ (16 - r)" by simp
  with Suc.IH [of "2 * c + t mod 2" "t div 2"] Suc.prems(1)
  have ih: "reverse_code r (2 * c + t mod 2) (t div 2)
          = (2 * c + t mod 2) * 2 ^ r + bits_value (rev (value_bits r (t div 2)))"
    by simp
  have v: "bits_value (rev (value_bits (Suc r) t))
             = bits_value (rev (value_bits r (t div 2))) + 2 ^ r * (t mod 2)"
    by (simp add: bits_value_append odd_iff_mod_2_eq_one)
  have "reverse_code (Suc r) c t = reverse_code r (2 * c + t mod 2) (t div 2)"
    by (simp only: reverse_code.simps u drop_bit_eq_div power_one_right)
  also note ih
  finally show ?case
    by (simp only: v) (simp add: algebra_simps)
qed

lemma reverse_code_reversed_bits:
  "len \<le> 16 \<Longrightarrow> reverse_code len 0 t = reversed_bits len t"
  by (simp add: reverse_code_eq reversed_bits_def)

section \<open>First codes\<close>

lemma upt_1_Suc_Suc: "[1..<Suc (Suc n)] = [1..<Suc n] @ [Suc n]"
  by simp

lemma next_code_fold:
  fixes lc :: "nat list" and n :: nat
  assumes "n \<le> kMaxHuffmanBits"
  defines "st \<equiv> fold (next_code_step lc) [1..<Suc n] (0, replicate (kMaxHuffmanBits + 1) 0)"
  shows "length (snd st) = kMaxHuffmanBits + 1 \<and> fst st = snd st ! n \<and> snd st ! 0 = 0
       \<and> (\<forall>L. 1 \<le> L \<and> L \<le> n \<longrightarrow>
             snd st ! L = u16 (push_bit 1 (snd st ! (L - 1) + lc ! (L - 1))))
       \<and> (\<forall>L. n < L \<and> L \<le> kMaxHuffmanBits \<longrightarrow> snd st ! L = 0)"
  using assms(1) unfolding st_def
proof (induction n)
  case 0
  then show ?case by (auto simp del: replicate.simps)
next
  case (Suc n)
  let ?st = "fold (next_code_step lc) [1..<Suc n] (0, replicate (kMaxHuffmanBits + 1) 0)"
  let ?code = "u16 (push_bit 1 (fst ?st + lc ! n))"
  from Suc have ih: "length (snd ?st) = kMaxHuffmanBits + 1" "fst ?st = snd ?st ! n"
    "snd ?st ! 0 = 0"
    "\<And>L. 1 \<le> L \<Longrightarrow> L \<le> n \<Longrightarrow>
       snd ?st ! L = u16 (push_bit 1 (snd ?st ! (L - 1) + lc ! (L - 1)))"
    "\<And>L. n < L \<Longrightarrow> L \<le> kMaxHuffmanBits \<Longrightarrow> snd ?st ! L = 0"
    by simp_all
  have st': "fold (next_code_step lc) [1..<Suc (Suc n)] (0, replicate (kMaxHuffmanBits + 1) 0)
               = (?code, (snd ?st)[Suc n := ?code])"
    by (simp only: upt_1_Suc_Suc fold_append o_apply fold.simps id_apply)
       (simp add: next_code_step_def Let_def)
  have lt: "Suc n < length (snd ?st)" using ih(1) Suc.prems by simp
  show ?case
    unfolding st' fst_conv snd_conv
  proof (intro conjI allI impI)
    show "length ((snd ?st)[Suc n := ?code]) = kMaxHuffmanBits + 1" using ih(1) by simp
    show "?code = (snd ?st)[Suc n := ?code] ! Suc n" using lt by simp
    show "(snd ?st)[Suc n := ?code] ! 0 = 0" using ih(3) by simp
  next
    fix L assume L: "1 \<le> L \<and> L \<le> Suc n"
    show "(snd ?st)[Suc n := ?code] ! L
            = u16 (push_bit 1 ((snd ?st)[Suc n := ?code] ! (L - 1) + lc ! (L - 1)))"
    proof (cases "L = Suc n")
      case True
      with lt ih(2) show ?thesis by simp
    next
      case False
      with L have "L \<le> n" "L - 1 \<noteq> Suc n" by auto
      with L ih(4) [of L] False show ?thesis by simp
    qed
  next
    fix L assume "Suc n < L \<and> L \<le> kMaxHuffmanBits"
    with ih(5) [of L] show "(snd ?st)[Suc n := ?code] ! L = 0" by simp
  qed
qed

lemma first_codes_props:
  "length (first_codes lc) = kMaxHuffmanBits + 1"
  "first_codes lc ! 0 = 0"
  "1 \<le> L \<Longrightarrow> L \<le> kMaxHuffmanBits \<Longrightarrow>
     first_codes lc ! L = u16 (push_bit 1 (first_codes lc ! (L - 1) + lc ! (L - 1)))"
  using next_code_fold [of kMaxHuffmanBits lc] by (simp_all add: first_codes_def)

lemma first_codes_less:
  "L \<le> kMaxHuffmanBits \<Longrightarrow> first_codes lc ! L < 65536"
  using first_codes_props(2) [of lc] first_codes_props(3) [of L lc]
  by (cases "L = 0") (auto simp: u16_def)


section \<open>Code assignment\<close>

lemma upt_0_Suc: "[0..<Suc n] = 0 # map Suc [0..<n]"
  by (simp add: upt_conv_Cons map_Suc_upt del: upt_Suc)

lemma assign_codes_index:
  "idx + length lens \<le> 65536 \<Longrightarrow>
     map cip_index (assign_codes lens idx nc)
       = map ((+) idx) (filter (\<lambda>i. lens ! i \<noteq> 0) [0..<length lens])"
proof (induction lens arbitrary: idx nc)
  case Nil
  then show ?case by simp
next
  case (Cons len lens)
  have "filter (\<lambda>i. (len # lens) ! i \<noteq> 0) [0..<length (len # lens)]
          = (if len \<noteq> 0 then [0] else []) @ map Suc (filter (\<lambda>i. lens ! i \<noteq> 0) [0..<length lens])"
    by (simp only: length_Cons upt_0_Suc) (simp add: filter_map o_def)
  moreover from Cons.prems have "Suc idx + length lens \<le> 65536" by simp
  moreover from Cons.prems have "u16 idx = idx" by (simp add: u16_def)
  ultimately show ?case
    by (simp add: Cons.IH o_def)
qed

lemma u16_u16_add: "u16 (u16 (Suc a) + c) = u16 (Suc (a + c))"
  by (simp add: u16_def mod_add_left_eq)

lemma assign_codes_member:
  assumes "cip \<in> set (assign_codes lens idx nc)"
    and "\<forall>len\<in>set lens. len < length nc" and "\<forall>v\<in>set nc. v < 65536"
    and "idx + length lens \<le> 65536"
  shows "\<exists>i<length lens. cip_index cip = idx + i \<and> lens ! i \<noteq> 0 \<and>
           cip_code cip = reverse_code (lens ! i) 0
                            (u16 (nc ! (lens ! i) + count_list (take i lens) (lens ! i)))"
  using assms
proof (induction lens arbitrary: idx nc)
  case Nil
  then show ?case by simp
next
  case (Cons len lens)
  show ?case
  proof (cases "len = 0")
    case True
    with Cons.prems have "cip \<in> set (assign_codes lens (Suc idx) nc)" by simp
    from Cons.IH [OF this] Cons.prems(2,3,4)
    obtain i where i: "i < length lens" "cip_index cip = Suc idx + i" "lens ! i \<noteq> 0"
      "cip_code cip = reverse_code (lens ! i) 0
                        (u16 (nc ! (lens ! i) + count_list (take i lens) (lens ! i)))"
      by auto
    with True show ?thesis
      by (intro exI [of _ "Suc i"]) auto
  next
    case False
    let ?nc = "nc[len := u16 (nc ! len + 1)]"
    from Cons.prems(2) have len: "len < length nc" by simp
    from Cons.prems(3) len have v: "nc ! len < 65536" by simp
    from Cons.prems(4) have idx: "u16 idx = idx" by (simp add: u16_def)
    from False Cons.prems(1) idx
    consider "cip = CodeIndexPair (reverse_code len 0 (nc ! len)) idx"
      | "cip \<in> set (assign_codes lens (Suc idx) ?nc)"
      by auto
    then show ?thesis
    proof cases
      case 1
      with False v show ?thesis
        by (intro exI [of _ 0]) (simp add: u16_def)
    next
      case 2
      have "\<forall>v\<in>set ?nc. v < 65536"
        using Cons.prems(3) by (auto simp: u16_def dest!: set_update_subset_insert [THEN subsetD])
      with Cons.IH [OF 2] Cons.prems(2,4)
      obtain i where i: "i < length lens" "cip_index cip = Suc idx + i" "lens ! i \<noteq> 0"
        "cip_code cip = reverse_code (lens ! i) 0
                          (u16 (?nc ! (lens ! i) + count_list (take i lens) (lens ! i)))"
        by auto
      have "u16 (?nc ! (lens ! i) + count_list (take i lens) (lens ! i))
              = u16 (nc ! (lens ! i) + count_list (take (Suc i) (len # lens)) (lens ! i))"
        using len by (cases "lens ! i = len") (simp_all add: u16_u16_add)
      with i show ?thesis
        by (intro exI [of _ "Suc i"]) auto
    qed
  qed
qed

lemma InitHuffmanCodes_Some:
  assumes "InitHuffmanCodes lens = Some (cips, mb)"
  shows "cips = assign_codes lens 0 (first_codes ((len_counts lens)[0 := 0]))"
    and "mb = find_max_bits (len_counts lens) kMaxHuffmanBits"
    and "\<not> oversubscribed (len_counts lens) mb"
  using assms by (auto simp: InitHuffmanCodes_def Let_def split: if_splits)

lemma InitHuffmanCodes_index:
  assumes "InitHuffmanCodes lens = Some (cips, mb)" and "length lens \<le> 65536"
  shows "map cip_index cips = filter (\<lambda>s. lens ! s \<noteq> 0) [0..<length lens]"
proof -
  have "(+) (0::nat) = id" by auto
  with InitHuffmanCodes_Some(1) [OF assms(1)] assms(2) show ?thesis
    by (simp add: assign_codes_index)
qed

lemma InitHuffmanCodes_member:
  assumes "InitHuffmanCodes lens = Some (cips, mb)" and "\<forall>len\<in>set lens. len \<le> kMaxHuffmanBits"
    and "length lens \<le> 65536" and "cip \<in> set cips"
  shows "cip_index cip < length lens" and "lens ! cip_index cip \<noteq> 0"
    and "cip_code cip = reversed_bits (lens ! cip_index cip)
           (u16 (first_codes ((len_counts lens)[0 := 0]) ! (lens ! cip_index cip)
                  + rank_in_length lens (cip_index cip)))"
proof -
  let ?nc = "first_codes ((len_counts lens)[0 := 0])"
  have a: "\<forall>len\<in>set lens. len < length ?nc"
    using assms(2) by (auto simp: first_codes_props(1))
  have b: "\<forall>v\<in>set ?nc. v < 65536"
    by (auto simp: in_set_conv_nth first_codes_props(1) intro!: first_codes_less)
  from assms(4) InitHuffmanCodes_Some(1) [OF assms(1)]
  have "cip \<in> set (assign_codes lens 0 ?nc)" by simp
  moreover from assms(3) have "0 + length lens \<le> 65536" by simp
  ultimately have "\<exists>i<length lens. cip_index cip = 0 + i \<and> lens ! i \<noteq> 0 \<and>
           cip_code cip = reverse_code (lens ! i) 0
                            (u16 (?nc ! (lens ! i) + count_list (take i lens) (lens ! i)))"
    using a b by (intro assign_codes_member) simp_all
  then
  obtain i where i: "i < length lens" "cip_index cip = i" "lens ! i \<noteq> 0"
    "cip_code cip = reverse_code (lens ! i) 0
                      (u16 (?nc ! (lens ! i) + count_list (take i lens) (lens ! i)))"
    by auto
  from i(1) assms(2) have "lens ! i \<le> 16" by (auto simp: kMaxHuffmanBits_def dest!: nth_mem)
  with i show "cip_index cip < length lens" "lens ! cip_index cip \<noteq> 0"
    "cip_code cip = reversed_bits (lens ! cip_index cip)
           (u16 (?nc ! (lens ! cip_index cip) + rank_in_length lens (cip_index cip)))"
    by (simp_all add: reverse_code_reversed_bits rank_in_length_def)
qed


section \<open>Valid bit and symbol of a table entry\<close>

lemma not_bit_if_less:
  fixes c :: nat
  assumes "c < 2 ^ len" and "len \<le> n"
  shows "\<not> bit c n"
proof -
  have "(2::nat) ^ len \<le> 2 ^ n" using assms(2) by (intro power_increasing) auto
  with assms(1) have "c < 2 ^ n" by (rule less_le_trans)
  then show ?thesis by (simp add: bit_iff_odd)
qed

lemma entry_value:
  assumes "i < 32768"
  shows "u16 (i OR 0x8000) = i + 32768"
proof -
  have "\<not> bit i 15" using assms by (intro not_bit_if_less [of i 15]) simp_all
  then have "i AND 2 ^ 15 = 0" using and_exp_eq_0_iff_not_bit [of i 15] by blast
  then have "i + 2 ^ 15 = i OR 2 ^ 15" by (rule disjunctive_add_eq_or)
  then have "i OR 0x8000 = i + 32768" by simp
  with assms show ?thesis by (simp add: u16_def)
qed

lemma entry_valid:
  fixes i :: nat
  assumes "i < 32768"
  shows "(i + 32768) AND 0x8000 \<noteq> 0"
proof -
  have "bit (i + 2 ^ 15) 15" using assms by (simp add: bit_iff_odd)
  then have "(i + 2 ^ 15) AND 2 ^ 15 \<noteq> 0"
    using and_exp_eq_0_iff_not_bit [of "i + 2 ^ 15" 15] by blast
  then show ?thesis by simp
qed

lemma entry_symbol: "i < 32768 \<Longrightarrow> (i + 32768) AND 0x7FFF = i" for i :: nat
proof -
  assume i: "i < 32768"
  have "(i + 32768) AND mask 15 = (i + 32768) mod 2 ^ 15"
    by (simp only: take_bit_eq_mask [symmetric] take_bit_eq_mod)
  moreover have "mask 15 = (32767::nat)" by (simp add: mask_eq_exp_minus_1)
  ultimately show ?thesis using i by simp
qed

lemma location_eq:
  "c < 2 ^ len \<Longrightarrow> push_bit len idx OR c = idx * 2 ^ len + c" for c :: nat
proof -
  assume c: "c < 2 ^ len"
  have "push_bit len idx + c = push_bit len idx OR c"
    by (rule disjunctive_add) (use not_bit_if_less [OF c] in \<open>auto simp: bit_push_bit_iff\<close>)
  then show ?thesis by (simp add: push_bit_eq_mult)
qed

section \<open>Filling the forward table\<close>

lemma length_fill_slot [simp]: "length (fill_slot len cip idx h) = length h"
  by (simp add: fill_slot_def Let_def)

lemma length_fold_fill_slot [simp]: "length (fold (fill_slot len cip) idxs h) = length h"
  by (induction idxs arbitrary: h) simp_all

lemma length_fill_code [simp]: "length (fill_code lens mb cip h) = length h"
  by (simp add: fill_code_def Let_def)

lemma length_fill_hcodes [simp]: "length (fill_hcodes lens mb cips h) = length h"
  unfolding fill_hcodes_def by (induction cips arbitrary: h) simp_all

lemma fill_slot_nth:
  assumes "cip_code cip < 2 ^ len" and "idx * 2 ^ len + cip_code cip < length h"
    and "loc < length h"
  shows "fill_slot len cip idx h ! loc =
     (if loc = idx * 2 ^ len + cip_code cip \<and> h ! loc AND 0x8000 = 0
      then u16 (cip_index cip OR 0x8000) else h ! loc)"
  using assms by (auto simp: fill_slot_def Let_def location_eq)

lemma fold_fill_slot_nth:
  assumes "cip_code cip < 2 ^ len" and "b * 2 ^ len \<le> length h"
  shows "\<forall>loc<length h. fold (fill_slot len cip) [a..<b] h ! loc =
     (if (\<exists>idx. a \<le> idx \<and> idx < b \<and> loc = idx * 2 ^ len + cip_code cip)
         \<and> h ! loc AND 0x8000 = 0
      then u16 (cip_index cip OR 0x8000) else h ! loc)"
  using assms(2)
proof (induction b)
  case 0
  then show ?case by simp
next
  case (Suc b)
  let ?h = "fold (fill_slot len cip) [a..<b] h"
  let ?L = "b * 2 ^ len + cip_code cip"
  let ?v = "u16 (cip_index cip OR 0x8000)"
  from Suc.prems have b: "b * 2 ^ len \<le> length h" by simp
  have L: "?L < length h" using Suc.prems assms(1) by simp
  note ih = Suc.IH [OF b, rule_format]
  show ?case
  proof (cases "a \<le> b")
    case False
    then show ?thesis by auto
  next
    case True
    then have f: "fold (fill_slot len cip) [a..<Suc b] h = fill_slot len cip b ?h"
      by simp
    have hL: "?h ! ?L = h ! ?L"
      using ih [OF L] by auto
    show ?thesis
    proof (intro allI impI)
      fix loc assume loc: "loc < length h"
      have r: "fill_slot len cip b ?h ! loc =
                 (if loc = ?L \<and> ?h ! loc AND 0x8000 = 0 then ?v else ?h ! loc)"
        using assms(1) L loc by (intro fill_slot_nth) simp_all
      have "fill_slot len cip b ?h ! loc =
         (if (\<exists>idx. a \<le> idx \<and> idx < Suc b \<and> loc = idx * 2 ^ len + cip_code cip)
             \<and> h ! loc AND 0x8000 = 0
          then ?v else h ! loc)"
      proof (cases "loc = ?L")
        case True
        with \<open>a \<le> b\<close>
        have "\<exists>idx. a \<le> idx \<and> idx < Suc b \<and> loc = idx * 2 ^ len + cip_code cip"
          by auto
        with r hL True show ?thesis by simp
      next
        case False
        then have "(\<exists>idx. a \<le> idx \<and> idx < Suc b \<and> loc = idx * 2 ^ len + cip_code cip)
                 \<longleftrightarrow> (\<exists>idx. a \<le> idx \<and> idx < b \<and> loc = idx * 2 ^ len + cip_code cip)"
          by (auto simp: less_Suc_eq)
        with r False ih [OF loc] show ?thesis by simp
      qed
      then show "fold (fill_slot len cip) [a..<Suc b] h ! loc =
         (if (\<exists>idx. a \<le> idx \<and> idx < Suc b \<and> loc = idx * 2 ^ len + cip_code cip)
             \<and> h ! loc AND 0x8000 = 0
          then ?v else h ! loc)"
        by (simp only: f)
    qed
  qed
qed

lemma matching_location:
  fixes c :: nat
  assumes "c < 2 ^ len" and "len \<le> mb" and "loc < 2 ^ mb"
  shows "(\<exists>idx. 1 \<le> idx \<and> idx < 2 ^ (mb - len) \<and> loc = idx * 2 ^ len + c)
           \<longleftrightarrow> loc mod 2 ^ len = c \<and> loc \<noteq> c"
proof
  assume "\<exists>idx. 1 \<le> idx \<and> idx < 2 ^ (mb - len) \<and> loc = idx * 2 ^ len + c"
  then obtain idx where idx: "1 \<le> idx" "loc = idx * 2 ^ len + c" by blast
  from idx(1) have "(2::nat) ^ len \<le> idx * 2 ^ len" by simp
  with idx(2) assms(1) show "loc mod 2 ^ len = c \<and> loc \<noteq> c" by simp
next
  assume a: "loc mod 2 ^ len = c \<and> loc \<noteq> c"
  let ?idx = "loc div 2 ^ len"
  from a have l: "loc = ?idx * 2 ^ len + c"
    by (metis div_mult_mod_eq)
  with a have "1 \<le> ?idx" by (cases "?idx = 0") auto
  moreover have "?idx < 2 ^ (mb - len)"
  proof -
    have "(2::nat) ^ mb = 2 ^ (mb - len) * 2 ^ len"
      using assms(2) by (simp flip: power_add)
    with assms(3) show ?thesis
      by (simp add: less_mult_imp_div_less)
  qed
  ultimately show "\<exists>idx. 1 \<le> idx \<and> idx < 2 ^ (mb - len) \<and> loc = idx * 2 ^ len + c"
    using l by blast
qed

lemma fill_code_nth:
  assumes "cip_code cip < 2 ^ (lens ! cip_index cip)" and "lens ! cip_index cip \<le> mb"
    and "length h = 2 ^ mb" and "loc < 2 ^ mb"
  shows "fill_code lens mb cip h ! loc =
     (if loc mod 2 ^ (lens ! cip_index cip) = cip_code cip
         \<and> (loc = cip_code cip \<or> h ! loc AND 0x8000 = 0)
      then u16 (cip_index cip OR 0x8000) else h ! loc)"
proof -
  let ?len = "lens ! cip_index cip"
  let ?v = "u16 (cip_index cip OR 0x8000)"
  let ?h = "h[cip_code cip := ?v]"
  have p: "(2::nat) ^ mb = 2 ^ (mb - ?len) * 2 ^ ?len"
    using assms(2) by (simp flip: power_add)
  have "(2::nat) ^ ?len \<le> 2 ^ mb" using assms(2) by (intro power_increasing) auto
  with assms(1) have c: "cip_code cip < 2 ^ mb" by (rule less_le_trans)
  have "fill_code lens mb cip h ! loc =
     (if (\<exists>idx. 1 \<le> idx \<and> idx < 2 ^ (mb - ?len) \<and> loc = idx * 2 ^ ?len + cip_code cip)
         \<and> ?h ! loc AND 0x8000 = 0
      then ?v else ?h ! loc)"
    unfolding fill_code_def Let_def push_bit_eq_mult mult_1_right
    using fold_fill_slot_nth [of cip ?len "2 ^ (mb - ?len)" ?h 1] assms p by simp
  also have "\<dots> =
     (if loc mod 2 ^ ?len = cip_code cip \<and> (loc = cip_code cip \<or> h ! loc AND 0x8000 = 0)
      then ?v else h ! loc)"
    using matching_location [OF assms(1,2,4)] assms(1,3,4) c by (cases "loc = cip_code cip") auto
  finally show ?thesis .
qed


lemma fill_hcodes_Cons:
  "fill_hcodes lens mb (cip # cips) h = fill_hcodes lens mb cips (fill_code lens mb cip h)"
  by (simp add: fill_hcodes_def)


lemma fill_hcodes_unique:
  assumes wf: "\<forall>cip\<in>D \<union> set cips.
                 cip_code cip < 2 ^ (lens ! cip_index cip) \<and> lens ! cip_index cip \<le> mb"
    and uniq: "\<forall>a\<in>D \<union> set cips. \<forall>b\<in>D \<union> set cips. \<forall>loc<2 ^ mb.
                 loc mod 2 ^ (lens ! cip_index a) = cip_code a
                 \<and> loc mod 2 ^ (lens ! cip_index b) = cip_code b \<longrightarrow> a = b"
    and len: "length h = 2 ^ mb"
    and inv: "\<forall>loc<2 ^ mb.
                (\<forall>cip\<in>D. loc mod 2 ^ (lens ! cip_index cip) = cip_code cip
                   \<longrightarrow> h ! loc = u16 (cip_index cip OR 0x8000))
                \<and> ((\<forall>cip\<in>D. loc mod 2 ^ (lens ! cip_index cip) \<noteq> cip_code cip) \<longrightarrow> h ! loc = 0)"
  shows "\<forall>loc<2 ^ mb.
           (\<forall>cip\<in>D \<union> set cips. loc mod 2 ^ (lens ! cip_index cip) = cip_code cip
              \<longrightarrow> fill_hcodes lens mb cips h ! loc = u16 (cip_index cip OR 0x8000))
           \<and> ((\<forall>cip\<in>D \<union> set cips. loc mod 2 ^ (lens ! cip_index cip) \<noteq> cip_code cip)
                \<longrightarrow> fill_hcodes lens mb cips h ! loc = 0)"
  using wf uniq len inv
proof (induction cips arbitrary: h D)
  case Nil
  then show ?case by (simp add: fill_hcodes_def)
next
  case (Cons c cips)
  let ?h = "fill_code lens mb c h"
  let ?D = "insert c D"
  have eq: "?D \<union> set cips = D \<union> set (c # cips)" by auto
  from Cons.prems(1) have c: "cip_code c < 2 ^ (lens ! cip_index c)" "lens ! cip_index c \<le> mb"
    by simp_all
  have inv': "\<forall>loc<2 ^ mb.
                (\<forall>cip\<in>?D. loc mod 2 ^ (lens ! cip_index cip) = cip_code cip
                   \<longrightarrow> ?h ! loc = u16 (cip_index cip OR 0x8000))
                \<and> ((\<forall>cip\<in>?D. loc mod 2 ^ (lens ! cip_index cip) \<noteq> cip_code cip) \<longrightarrow> ?h ! loc = 0)"
  proof (intro allI impI)
    fix loc :: nat assume loc: "loc < 2 ^ mb"
    note n = fill_code_nth [OF c Cons.prems(3) loc]
    from Cons.prems(4) loc
    have i1: "\<And>cip. cip \<in> D \<Longrightarrow> loc mod 2 ^ (lens ! cip_index cip) = cip_code cip
                \<Longrightarrow> h ! loc = u16 (cip_index cip OR 0x8000)"
      and i2: "(\<forall>cip\<in>D. loc mod 2 ^ (lens ! cip_index cip) \<noteq> cip_code cip) \<Longrightarrow> h ! loc = 0"
      by blast+
    from Cons.prems(2) loc
    have u: "\<And>a. a \<in> D \<Longrightarrow> loc mod 2 ^ (lens ! cip_index a) = cip_code a
               \<Longrightarrow> loc mod 2 ^ (lens ! cip_index c) = cip_code c \<Longrightarrow> a = c"
      by (metis Un_iff list.set_intros(1))
    show "(\<forall>cip\<in>?D. loc mod 2 ^ (lens ! cip_index cip) = cip_code cip
                   \<longrightarrow> ?h ! loc = u16 (cip_index cip OR 0x8000))
                \<and> ((\<forall>cip\<in>?D. loc mod 2 ^ (lens ! cip_index cip) \<noteq> cip_code cip) \<longrightarrow> ?h ! loc = 0)"
    proof (cases "loc mod 2 ^ (lens ! cip_index c) = cip_code c")
      case True
      have hc: "?h ! loc = u16 (cip_index c OR 0x8000)"
      proof (cases "loc = cip_code c \<or> h ! loc AND 0x8000 = 0")
        case True
        with n \<open>loc mod 2 ^ (lens ! cip_index c) = cip_code c\<close> show ?thesis by simp
      next
        case False
        then have "h ! loc AND 0x8000 \<noteq> 0" by simp
        then have "h ! loc \<noteq> 0" by (cases "h ! loc = 0") simp_all
        with i2 obtain a where a: "a \<in> D" "loc mod 2 ^ (lens ! cip_index a) = cip_code a"
          by blast
        with u True have "a = c" by blast
        with a i1 have "h ! loc = u16 (cip_index c OR 0x8000)" by blast
        with n False show ?thesis by simp
      qed
      with True u show ?thesis by auto
    next
      case False
      with n have "?h ! loc = h ! loc" by simp
      with False i1 i2 show ?thesis by auto
    qed
  qed
  have "\<forall>loc<2 ^ mb.
           (\<forall>cip\<in>?D \<union> set cips. loc mod 2 ^ (lens ! cip_index cip) = cip_code cip
              \<longrightarrow> fill_hcodes lens mb cips ?h ! loc = u16 (cip_index cip OR 0x8000))
           \<and> ((\<forall>cip\<in>?D \<union> set cips. loc mod 2 ^ (lens ! cip_index cip) \<noteq> cip_code cip)
                \<longrightarrow> fill_hcodes lens mb cips ?h ! loc = 0)"
    using Cons.prems(1,2,3) inv' unfolding eq [symmetric]
    by (intro Cons.IH) simp_all
  then show ?case
    unfolding fill_hcodes_Cons eq .
qed

section \<open>Filling the reverse table\<close>

lemma length_fill_rcodes [simp]: "length (fill_rcodes cips idx n) = n"
  by (induction cips idx n rule: fill_rcodes.induct) simp_all


section \<open>The pairs of an accepted array\<close>

lemma InitHuffmanCodes_sorted:
  assumes "InitHuffmanCodes lens = Some (cips, mb)" and "length lens \<le> 65536"
  shows "sorted_wrt (<) (map cip_index cips)"
  unfolding InitHuffmanCodes_index [OF assms] by (rule sorted_wrt_filter) simp

lemma InitHuffmanCodes_index_inj:
  assumes "InitHuffmanCodes lens = Some (cips, mb)" and "length lens \<le> 65536"
    and "a \<in> set cips" and "b \<in> set cips" and "cip_index a = cip_index b"
  shows "a = b"
proof -
  have "distinct (map cip_index cips)"
    using InitHuffmanCodes_sorted [OF assms(1,2)] by (simp add: strict_sorted_iff)
  then have "inj_on cip_index (set cips)" by (simp add: distinct_map)
  with assms(3-5) show ?thesis by (auto dest: inj_onD)
qed

lemma InitHuffmanCodes_symbol:
  assumes "InitHuffmanCodes lens = Some (cips, mb)" and "length lens \<le> 65536"
    and "s < length lens" and "lens ! s \<noteq> 0"
  shows "\<exists>cip\<in>set cips. cip_index cip = s"
proof -
  have "s \<in> set (filter (\<lambda>s. lens ! s \<noteq> 0) [0..<length lens])"
    using assms(3,4) by simp
  then have "s \<in> set (map cip_index cips)"
    by (simp only: InitHuffmanCodes_index [OF assms(1,2)])
  then show ?thesis by auto
qed

lemma InitHuffmanCodes_max_bits:
  assumes "InitHuffmanCodes lens = Some (cips, mb)" and "\<forall>len\<in>set lens. len \<le> kMaxHuffmanBits"
    and "length lens < 65536" and "s < length lens"
  shows "lens ! s \<le> mb"
proof (cases "lens ! s = 0")
  case True
  then show ?thesis by simp
next
  case False
  let ?len = "lens ! s"
  from assms(2,4) have le: "?len \<le> kMaxHuffmanBits" by simp
  have "?len \<in> set lens" using assms(4) by simp
  then have "0 < count_list lens ?len"
    by (metis count_list_0_iff not_gr_zero)
  moreover have "count_list lens ?len < 65536"
    using count_list_le_length [of lens ?len] assms(3) by simp
  ultimately have "len_counts lens ! ?len \<noteq> 0"
    using le by (simp add: len_counts_nth)
  with False le have "?len \<le> find_max_bits (len_counts lens) kMaxHuffmanBits"
    by (intro find_max_bits_ge) simp_all
  with InitHuffmanCodes_Some(2) [OF assms(1)] show ?thesis by simp
qed

lemma InitHuffmanCodes_max_bits_le:
  assumes "InitHuffmanCodes lens = Some (cips, mb)"
  shows "mb \<le> kMaxHuffmanBits"
  using InitHuffmanCodes_Some(2) [OF assms] find_max_bits_le by simp

lemma InitHuffmanCodes_wf:
  assumes "InitHuffmanCodes lens = Some (cips, mb)" and "\<forall>len\<in>set lens. len \<le> kMaxHuffmanBits"
    and "length lens < 65536"
  shows "\<forall>cip\<in>set cips. cip_code cip < 2 ^ (lens ! cip_index cip) \<and> lens ! cip_index cip \<le> mb"
proof
  fix cip assume c: "cip \<in> set cips"
  from assms(3) have "length lens \<le> 65536" by simp
  note m = InitHuffmanCodes_member [OF assms(1,2) this c]
  from m(3) have "cip_code cip < 2 ^ (lens ! cip_index cip)"
    by (simp add: reversed_bits_less)
  moreover from m(1) have "lens ! cip_index cip \<le> mb"
    by (intro InitHuffmanCodes_max_bits [OF assms])
  ultimately show "cip_code cip < 2 ^ (lens ! cip_index cip) \<and> lens ! cip_index cip \<le> mb" ..
qed

section \<open>Lookups in the tables of one code\<close>

lemma BuildHuffmanCodes_Some:
  assumes "BuildHuffmanCodes lens = Some (hcodes, mb)"
  obtains cips where "InitHuffmanCodes lens = Some (cips, mb)"
    and "hcodes = fill_hcodes lens mb (sort_by_length lens cips) (replicate (2 ^ mb) 0)"
  using assms by (auto simp: BuildHuffmanCodes_def push_bit_eq_mult split: option.splits)


lemma length_BuildHuffmanCodes:
  assumes "BuildHuffmanCodes lens = Some (hcodes, mb)"
  shows "length hcodes = 2 ^ mb"
  using assms by (rule BuildHuffmanCodes_Some) simp





section \<open>One element of a code-length sequence, in both directions\<close>

lemma value_bits_mod: "value_bits n (v mod 2 ^ n) = value_bits n v"
proof (induction n arbitrary: v)
  case 0
  then show ?case by simp
next
  case (Suc n)
  have "v mod 2 ^ Suc n div 2 = v div 2 mod 2 ^ n"
    by (simp add: mod_mult2_eq)
  moreover have "odd (v mod 2 ^ Suc n) = odd v"
    by (simp add: mod_mult2_eq)
  ultimately show ?case using Suc.IH [of "v div 2"] by simp
qed









section \<open>A code-length sequence, in both directions\<close>



section \<open>The meta code lengths and the header, in both directions\<close>












section \<open>Canonical codes\<close>

lemma u16_double_add: "u16 (2 * (u16 a + u16 b)) = u16 (2 * (a + b))"
proof -
  have "(2 * (a mod 65536 + b mod 65536)) mod 65536
          = (2 * ((a mod 65536 + b mod 65536) mod 65536)) mod 65536"
    by (simp only: mod_mult_right_eq)
  also have "(a mod 65536 + b mod 65536) mod 65536 = (a + b) mod 65536"
    by (rule mod_add_eq)
  also have "(2 * ((a + b) mod 65536)) mod 65536 = (2 * (a + b)) mod 65536"
    by (rule mod_mult_right_eq)
  finally show ?thesis by (simp only: u16_def)
qed

lemma first_codes_spec:
  "L \<le> kMaxHuffmanBits \<Longrightarrow>
     first_codes ((len_counts lens)[0 := 0]) ! L = u16 (spec_next_code lens L)"
proof (induction L)
  case 0
  then show ?case by (simp add: first_codes_props(2) u16_def)
next
  case (Suc L)
  let ?lc = "(len_counts lens)[0 := 0]"
  let ?c = "if L = 0 then 0 else count_list lens L"
  have lc: "?lc ! L = u16 ?c"
    using Suc.prems by (simp add: len_counts_nth length_len_counts u16_def)
  have "first_codes ?lc ! Suc L = u16 (push_bit 1 (first_codes ?lc ! L + ?lc ! L))"
    using Suc.prems first_codes_props(3) [of "Suc L" ?lc] by simp
  also have "first_codes ?lc ! L = u16 (spec_next_code lens L)"
    using Suc by simp
  finally have "first_codes ?lc ! Suc L = u16 (2 * (u16 (spec_next_code lens L) + u16 ?c))"
    by (simp only: lc push_bit_eq_mult power_one_right mult.commute)
  also have "\<dots> = u16 (2 * (spec_next_code lens L + ?c))" by (rule u16_double_add)
  finally show ?case by (simp only: spec_next_code.simps)
qed

lemma kraft_sum_counts:
  "(\<Sum>j = 1..L. real (count_list lens j) / 2 ^ j) \<le> kraft_sum lens"
proof (induction lens)
  case Nil
  then show ?case by (simp add: kraft_sum_def)
next
  case (Cons x xs)
  have "(\<Sum>j = 1..L. real (count_list (x # xs) j) / 2 ^ j)
          = (\<Sum>j = 1..L. real (count_list xs j) / 2 ^ j + (if x = j then 1 / 2 ^ j else 0))"
    by (intro sum.cong) (simp_all add: add_divide_distrib)
  also have "\<dots> = (\<Sum>j = 1..L. real (count_list xs j) / 2 ^ j)
                     + (\<Sum>j = 1..L. if x = j then 1 / 2 ^ j else 0)"
    by (rule sum.distrib)
  also have "(\<Sum>j = 1..L. if x = j then 1 / 2 ^ j else 0)
               = (if x \<in> {1..L} then 1 / 2 ^ x else (0::real))"
    by (simp add: sum.delta')
  also have "\<dots> \<le> (if 0 < x then 1 / 2 ^ x else 0)" by simp
  finally show ?case using Cons.IH by (simp add: kraft_sum_Cons)
qed

lemma spec_next_code_real:
  "real (spec_next_code lens L) / 2 ^ L = (\<Sum>j = 1..<L. real (count_list lens j) / 2 ^ j)"
proof (induction L)
  case 0
  then show ?case by simp
next
  case (Suc L)
  show ?case
  proof (cases "L = 0")
    case True
    then show ?thesis by simp
  next
    case False
    then have "{1..<Suc L} = insert L {1..<L}" by auto
    then have "(\<Sum>j = 1..<Suc L. real (count_list lens j) / 2 ^ j)
                 = real (count_list lens L) / 2 ^ L + (\<Sum>j = 1..<L. real (count_list lens j) / 2 ^ j)"
      by simp
    with False Suc.IH show ?thesis by (simp add: add_divide_distrib)
  qed
qed

lemma spec_end_le:
  assumes "kraft_sum lens \<le> 1" and "1 \<le> L"
  shows "spec_next_code lens L + count_list lens L \<le> 2 ^ L"
proof -
  from assms(2) have "{1..L} = insert L {1..<L}" by auto
  then have "(\<Sum>j = 1..L. real (count_list lens j) / 2 ^ j)
               = real (count_list lens L) / 2 ^ L + (\<Sum>j = 1..<L. real (count_list lens j) / 2 ^ j)"
    by simp
  also have "\<dots> = real (spec_next_code lens L + count_list lens L) / 2 ^ L"
    by (simp add: spec_next_code_real add_divide_distrib)
  finally have "real (spec_next_code lens L + count_list lens L) / 2 ^ L \<le> 1"
    using kraft_sum_counts [where L = L and lens = lens] assms(1) by linarith
  then have "real (spec_next_code lens L + count_list lens L) \<le> 2 ^ L"
    by (simp add: divide_le_eq)
  then show ?thesis
    by (metis of_nat_le_iff of_nat_numeral of_nat_power)
qed

lemma spec_next_code_mono:
  "1 \<le> a \<Longrightarrow> a < b \<Longrightarrow>
     2 ^ (b - a) * (spec_next_code lens a + count_list lens a) \<le> spec_next_code lens b"
proof (induction b)
  case 0
  then show ?case by simp
next
  case (Suc b)
  show ?case
  proof (cases "a = b")
    case True
    with Suc.prems show ?thesis by simp
  next
    case False
    with Suc.prems have ab: "a < b" by simp
    then have "Suc b - a = Suc (b - a)" by simp
    then have "2 ^ (Suc b - a) * (spec_next_code lens a + count_list lens a)
                 = 2 * (2 ^ (b - a) * (spec_next_code lens a + count_list lens a))"
      by simp
    also have "\<dots> \<le> 2 * spec_next_code lens b"
      using Suc.IH [OF Suc.prems(1) ab] by simp
    also have "\<dots> \<le> spec_next_code lens (Suc b)" by simp
    finally show ?thesis .
  qed
qed

lemma rank_in_length_less:
  assumes "s < length lens"
  shows "rank_in_length lens s < count_list lens (lens ! s)"
proof -
  have "lens = take s lens @ lens ! s # drop (Suc s) lens"
    using assms by (rule id_take_nth_drop)
  then have "count_list lens (lens ! s)
               = count_list (take s lens @ lens ! s # drop (Suc s) lens) (lens ! s)"
    by simp
  then show ?thesis by (simp add: rank_in_length_def)
qed

lemma rank_in_length_mono:
  assumes "s < t" and "t < length lens" and "lens ! s = lens ! t"
  shows "rank_in_length lens s < rank_in_length lens t"
proof -
  have s: "s < length (take t lens)" using assms(1,2) by simp
  have "rank_in_length (take t lens) s < count_list (take t lens) (take t lens ! s)"
    using s by (rule rank_in_length_less)
  moreover have "take s (take t lens) = take s lens" using assms(1) by (simp add: min_absorb1)
  ultimately show ?thesis using assms by (simp add: rank_in_length_def)
qed

lemma canonical_code_less:
  assumes "kraft_sum lens \<le> 1" and "s < length lens" and "0 < lens ! s"
  shows "canonical_code lens s < 2 ^ (lens ! s)"
proof -
  have "canonical_code lens s < spec_next_code lens (lens ! s) + count_list lens (lens ! s)"
    using rank_in_length_less [OF assms(2)] by (simp add: canonical_code_def)
  also have "\<dots> \<le> 2 ^ (lens ! s)" using assms(1,3) by (intro spec_end_le) simp_all
  finally show ?thesis .
qed

lemma canonical_code_prefix_free:
  assumes "s < length lens" and "t < length lens" and "0 < lens ! s" and "lens ! s \<le> lens ! t"
    and "canonical_code lens t div 2 ^ (lens ! t - lens ! s) = canonical_code lens s"
  shows "s = t"
proof (cases "lens ! s = lens ! t")
  case True
  with assms(5) have "rank_in_length lens s = rank_in_length lens t"
    by (simp add: canonical_code_def)
  then show ?thesis
    using rank_in_length_mono [of s t lens] rank_in_length_mono [of t s lens] assms(1,2) True
    by (cases s t rule: linorder_cases) auto
next
  case False
  let ?a = "lens ! s" and ?b = "lens ! t"
  from False assms(4) have ab: "?a < ?b" by simp
  have "2 ^ (?b - ?a) * (spec_next_code lens ?a + count_list lens ?a) \<le> spec_next_code lens ?b"
    using assms(3) ab by (intro spec_next_code_mono) simp_all
  also have "\<dots> \<le> canonical_code lens t" by (simp add: canonical_code_def)
  finally have "spec_next_code lens ?a + count_list lens ?a
                  \<le> canonical_code lens t div 2 ^ (?b - ?a)"
    by (simp add: less_eq_div_iff_mult_less_eq mult.commute)
  moreover have "canonical_code lens s < spec_next_code lens ?a + count_list lens ?a"
    using rank_in_length_less [OF assms(1)] by (simp add: canonical_code_def)
  ultimately show ?thesis using assms(5) by simp
qed

section \<open>Reversed codes\<close>


lemma value_bits_add:
  "value_bits (a + b) v = value_bits a v @ value_bits b (v div 2 ^ a)"
proof (induction a arbitrary: v)
  case 0
  then show ?case by simp
next
  case (Suc a)
  have "v div 2 div 2 ^ a = v div 2 ^ Suc a" by (simp add: div_mult2_eq)
  with Suc [of "v div 2"] show ?case by simp
qed


lemma reversed_bits_mod:
  assumes "L \<le> M"
  shows "reversed_bits M d mod 2 ^ L = reversed_bits L (d div 2 ^ (M - L))"
proof -
  have "value_bits M d = value_bits (M - L) d @ value_bits L (d div 2 ^ (M - L))"
    using value_bits_add [of "M - L" L d] assms by simp
  then have "reversed_bits M d
               = bits_value (rev (value_bits L (d div 2 ^ (M - L))) @ rev (value_bits (M - L) d))"
    by (simp add: reversed_bits_def)
  also have "\<dots> = reversed_bits L (d div 2 ^ (M - L))
                     + 2 ^ L * bits_value (rev (value_bits (M - L) d))"
    by (simp add: bits_value_append reversed_bits_def)
  finally show ?thesis
    using reversed_bits_less [of L "d div 2 ^ (M - L)"] by simp
qed


lemma reversed_bits_inj:
  assumes "a < 2 ^ L" and "b < 2 ^ L" and "reversed_bits L a = reversed_bits L b"
  shows "a = b"
proof -
  have r: "value_bits L (reversed_bits L c) = rev (value_bits L c)" for c
    using value_bits_bits_value [of L "rev (value_bits L c)"] by (simp add: reversed_bits_def)
  from assms(3) have "value_bits L (reversed_bits L a) = value_bits L (reversed_bits L b)"
    by simp
  then have "rev (value_bits L a) = rev (value_bits L b)" by (simp only: r)
  then have "bits_value (value_bits L a) = bits_value (value_bits L b)" by simp
  with assms(1,2) show ?thesis by (simp add: bits_value_value_bits)
qed


lemma reversed_bits_u16:
  assumes "len \<le> 16"
  shows "reversed_bits len (u16 c) = reversed_bits len c"
proof -
  have "(2::nat) ^ len dvd 2 ^ 16" using assms by (rule le_imp_power_dvd)
  then have "c mod 65536 mod 2 ^ len = c mod 2 ^ len" by (simp add: mod_mod_cancel)
  then have "value_bits len (c mod 65536) = value_bits len c"
    using value_bits_mod [of len "c mod 65536"] value_bits_mod [of len c] by simp
  then show ?thesis by (simp add: reversed_bits_def u16_def)
qed


lemma InitHuffmanCodes_canonical_code:
  assumes i: "InitHuffmanCodes lens = Some (cips, mb)"
    and le: "\<forall>len\<in>set lens. len \<le> kMaxHuffmanBits" and n: "length lens \<le> 65536"
    and c: "cip \<in> set cips"
  shows "cip_code cip = reversed_bits (lens ! cip_index cip) (canonical_code lens (cip_index cip))"
proof -
  let ?s = "cip_index cip"
  let ?len = "lens ! ?s"
  note m = InitHuffmanCodes_member [OF i le n c]
  from m(1) le have l15: "?len \<le> kMaxHuffmanBits" by simp
  then have l16: "?len \<le> 16" by (simp add: kMaxHuffmanBits_def)
  have "u16 (first_codes ((len_counts lens)[0 := 0]) ! ?len + rank_in_length lens ?s)
          = u16 (u16 (spec_next_code lens ?len) + rank_in_length lens ?s)"
    using l15 by (simp add: first_codes_spec)
  also have "\<dots> = u16 (canonical_code lens ?s)"
    by (simp add: u16_def canonical_code_def mod_add_left_eq)
  finally show ?thesis
    using m(3) l16 by (simp add: reversed_bits_u16)
qed


lemma canonical_code_unique_match:
  assumes k: "kraft_sum lens \<le> 1" and s: "s < length lens" "0 < lens ! s"
    and t: "t < length lens" "0 < lens ! t"
    and ms: "loc mod 2 ^ (lens ! s) = reversed_bits (lens ! s) (canonical_code lens s)"
    and mt: "loc mod 2 ^ (lens ! t) = reversed_bits (lens ! t) (canonical_code lens t)"
  shows "s = t"
proof -
  have aux: "s = t"
    if s: "s < length lens" "0 < lens ! s" and t: "t < length lens" "0 < lens ! t"
      and ms: "loc mod 2 ^ (lens ! s) = reversed_bits (lens ! s) (canonical_code lens s)"
      and mt: "loc mod 2 ^ (lens ! t) = reversed_bits (lens ! t) (canonical_code lens t)"
      and ab: "lens ! s \<le> lens ! t" for s t
  proof -
    let ?a = "lens ! s" and ?b = "lens ! t"
    let ?cs = "canonical_code lens s" and ?ct = "canonical_code lens t"
    have "(2::nat) ^ ?a dvd 2 ^ ?b" using ab by (rule le_imp_power_dvd)
    then have "loc mod 2 ^ ?b mod 2 ^ ?a = loc mod 2 ^ ?a" by (simp add: mod_mod_cancel)
    with ms mt have "reversed_bits ?b ?ct mod 2 ^ ?a = reversed_bits ?a ?cs" by simp
    then have r: "reversed_bits ?a (?ct div 2 ^ (?b - ?a)) = reversed_bits ?a ?cs"
      using ab by (simp add: reversed_bits_mod)
    have cs: "?cs < 2 ^ ?a" using k s by (rule canonical_code_less)
    have "(2::nat) ^ ?a * 2 ^ (?b - ?a) = 2 ^ (?a + (?b - ?a))"
      by (rule power_add [symmetric])
    also have "?a + (?b - ?a) = ?b" using ab by (rule le_add_diff_inverse)
    finally have p: "(2::nat) ^ ?a * 2 ^ (?b - ?a) = 2 ^ ?b" .
    have "?ct < 2 ^ ?b" using k t by (rule canonical_code_less)
    then have "?ct < 2 ^ ?a * 2 ^ (?b - ?a)" by (simp only: p)
    then have "?ct div 2 ^ (?b - ?a) < 2 ^ ?a" by (rule less_mult_imp_div_less)
    from reversed_bits_inj [OF this cs r] show ?thesis
      using s(1) t(1) s(2) ab by (rule canonical_code_prefix_free [rotated -1])
  qed
  show ?thesis
  proof (cases "lens ! s \<le> lens ! t")
    case True
    from s t ms mt True show ?thesis by (rule aux)
  next
    case False
    then have "lens ! t \<le> lens ! s" by simp
    with t s mt ms have "t = s" by (rule aux)
    then show ?thesis by simp
  qed
qed


lemma InitHuffmanCodes_accepts_kraft:
  assumes "kraft_sum lens \<le> 1"
  shows "InitHuffmanCodes lens \<noteq> None"
proof
  assume "InitHuffmanCodes lens = None"
  then obtain L where L: "1 \<le> L" "L \<le> kMaxHuffmanBits" "2 ^ L < len_counts lens ! L"
    unfolding InitHuffmanCodes_None_iff by blast
  have "len_counts lens ! L \<le> count_list lens L"
    using L(2) by (simp add: len_counts_nth)
  also have "\<dots> \<le> 2 ^ L"
    using assms L(1) by (intro kraft_count_le) auto
  finally show False using L(3) by simp
qed


lemma forward_table_entry:
  assumes le: "\<forall>len\<in>set lens. len \<le> kMaxHuffmanBits" and n: "length lens \<le> 32768"
    and k: "kraft_sum lens \<le> 1"
    and b: "BuildHuffmanCodes lens = Some (hcodes, mb)"
    and s: "s < length lens" "0 < lens ! s"
    and i: "i < 2 ^ mb"
    and m: "i mod 2 ^ (lens ! s) = reversed_bits (lens ! s) (canonical_code lens s)"
  shows "hcodes ! i = s + 32768"
proof -
  from b obtain cips where ini: "InitHuffmanCodes lens = Some (cips, mb)"
    and h: "hcodes = fill_hcodes lens mb (sort_by_length lens cips) (replicate (2 ^ mb) 0)"
    by (rule BuildHuffmanCodes_Some)
  from n have n1: "length lens < 65536" and n2: "length lens \<le> 65536" by simp_all
  let ?cs = "sort_by_length lens cips"
  have set: "set ?cs = set cips" by (simp add: sort_by_length_def)
  have wf: "\<forall>cip\<in>{} \<union> set ?cs.
              cip_code cip < 2 ^ (lens ! cip_index cip) \<and> lens ! cip_index cip \<le> mb"
    using InitHuffmanCodes_wf [OF ini le n1] by (simp add: set)
  have uniq: "\<forall>a\<in>{} \<union> set ?cs. \<forall>b\<in>{} \<union> set ?cs. \<forall>loc<2 ^ mb.
                 loc mod 2 ^ (lens ! cip_index a) = cip_code a
                 \<and> loc mod 2 ^ (lens ! cip_index b) = cip_code b \<longrightarrow> a = b"
  proof (intro ballI allI impI)
    fix a b and loc :: nat
    assume a: "a \<in> {} \<union> set ?cs" and b: "b \<in> {} \<union> set ?cs"
      and "loc mod 2 ^ (lens ! cip_index a) = cip_code a
           \<and> loc mod 2 ^ (lens ! cip_index b) = cip_code b"
    then have ma: "loc mod 2 ^ (lens ! cip_index a) = cip_code a"
      and mb: "loc mod 2 ^ (lens ! cip_index b) = cip_code b" by simp_all
    from a b have a': "a \<in> set cips" and b': "b \<in> set cips" by (simp_all add: set)
    note fa = InitHuffmanCodes_member [OF ini le n2 a']
    note fb = InitHuffmanCodes_member [OF ini le n2 b']
    from fa(2) have pa: "0 < lens ! cip_index a" by simp
    from fb(2) have pb: "0 < lens ! cip_index b" by simp
    have "cip_index a = cip_index b"
      using k fa(1) pa fb(1) pb
        ma [unfolded InitHuffmanCodes_canonical_code [OF ini le n2 a']]
        mb [unfolded InitHuffmanCodes_canonical_code [OF ini le n2 b']]
      by (rule canonical_code_unique_match)
    with ini n2 a' b' show "a = b" by (rule InitHuffmanCodes_index_inj)
  qed
  have len: "length (replicate (2 ^ mb) (0::nat)) = 2 ^ mb" by simp
  have inv: "\<forall>loc<2 ^ mb.
                (\<forall>cip\<in>{}. loc mod 2 ^ (lens ! cip_index cip) = cip_code cip
                   \<longrightarrow> replicate (2 ^ mb) 0 ! loc = u16 (cip_index cip OR 0x8000))
                \<and> ((\<forall>cip\<in>{}. loc mod 2 ^ (lens ! cip_index cip) \<noteq> cip_code cip)
                     \<longrightarrow> replicate (2 ^ mb) 0 ! loc = 0)"
    by simp
  note u = fill_hcodes_unique [OF wf uniq len inv]
  from s have "lens ! s \<noteq> 0" by simp
  with InitHuffmanCodes_symbol [OF ini n2 s(1)] obtain cip where
    c: "cip \<in> set cips" "cip_index cip = s" by blast
  have code: "cip_code cip = reversed_bits (lens ! s) (canonical_code lens s)"
    using InitHuffmanCodes_canonical_code [OF ini le n2 c(1)] c(2) by simp
  from u i c(1) have "i mod 2 ^ (lens ! cip_index cip) = cip_code cip
                       \<longrightarrow> hcodes ! i = u16 (cip_index cip OR 0x8000)"
    unfolding h by (simp add: set)
  with m code c(2) have "hcodes ! i = u16 (s OR 0x8000)" by simp
  moreover from s(1) n have "s < 32768" by simp
  ultimately show ?thesis by (simp add: entry_value)
qed

lemma spec_next_code_numeral:
  "spec_next_code lens (numeral k) =
     2 * (spec_next_code lens (pred_numeral k)
          + (if pred_numeral k = 0 then 0 else count_list lens (pred_numeral k)))"
  by (simp add: numeral_eq_Suc)


section \<open>Claims\<close>

text \<open>
  C8. A code-length array whose entries are all zero is accepted by \<open>InitHuffmanCodes\<close>:
  it returns true, with no code assigned and \<open>max_bits = 0\<close>.
\<close>

theorem InitHuffmanCodes_all_zero:
  "InitHuffmanCodes (replicate n 0) = Some ([], 0)"
proof -
  have z: "len_counts (replicate n 0) ! L = 0" if "0 < L" "L \<le> kMaxHuffmanBits" for L
    using that by (simp add: len_counts_nth)
  have mb: "find_max_bits (len_counts (replicate n 0)) kMaxHuffmanBits = 0"
    by (rule find_max_bits_zero) (rule z)
  have as: "assign_codes (replicate n 0) i nc = []" for i nc
    by (induction n arbitrary: i) simp_all
  show ?thesis
    unfolding InitHuffmanCodes_def Let_def mb
    by (simp add: oversubscribed_def as)
qed

text \<open>
  C5. Let the entries of \<open>lens\<close> be at most \<open>kMaxHuffmanBits\<close> and let \<open>L\<close> be a
  length between 1 and \<open>kMaxHuffmanBits\<close>. If the counter \<open>len_count_[L]\<close> exceeds
  \<open>2^L\<close> then \<open>InitHuffmanCodes\<close> returns false; for arrays of fewer than 65536
  entries the counter is the number of symbols of length \<open>L\<close>, so the same holds of
  that number. In particular \<open>[1, 1, 1]\<close> is rejected, by both table builders; a
  dynamic header whose literal/length sequence starts with \<open>1, 1, 1\<close> and its puff
  form make \<open>BuildDynamicHuffmanTable\<close> fail with \<open>InvalidInput\<close> in either
  direction.
\<close>

theorem InitHuffmanCodes_rejects_oversubscribed:
  assumes "\<forall>len\<in>set lens. len \<le> kMaxHuffmanBits" and "1 \<le> L" and "L \<le> kMaxHuffmanBits"
  shows "(2 ^ L < len_counts lens ! L \<longrightarrow> InitHuffmanCodes lens = None)
       \<and> (length lens < 65536 \<longrightarrow> 2 ^ L < count_list lens L \<longrightarrow> InitHuffmanCodes lens = None)
       \<and> InitHuffmanCodes [1, 1, 1] = None
       \<and> BuildHuffmanCodes [1, 1, 1] = None
       \<and> BuildHuffmanReverseCodes [1, 1, 1] 286 = None
       \<and> BuildDynamicHuffmanTable_br oversubscribed_header 18 = Inl kInvalidInput
       \<and> BuildDynamicHuffmanTable_bw oversubscribed_puff \<lparr>out_bits = [], capacity = 88\<rparr>
            = Inl kInvalidInput"
proof -
  have a: "InitHuffmanCodes lens = None" if "2 ^ L < len_counts lens ! L"
    using that assms(2,3) unfolding InitHuffmanCodes_None_iff by blast
  have b: "InitHuffmanCodes lens = None" if "length lens < 65536" "2 ^ L < count_list lens L"
  proof -
    have "count_list lens L < 65536"
      using count_list_le_length [of lens L] that(1) by simp
    then have "len_counts lens ! L = count_list lens L"
      using assms(3) by (simp add: len_counts_nth)
    with that(2) a show ?thesis by simp
  qed
  have c: "InitHuffmanCodes [1, 1, 1] = None"
    by (simp add: eval_init)
  have d: "BuildDynamicHuffmanTable_br oversubscribed_header 18 = Inl kInvalidInput"
    by (simp add: eval_dynamic oversubscribed_header_def cong: let_weak_cong)
  have e: "BuildDynamicHuffmanTable_bw oversubscribed_puff \<lparr>out_bits = [], capacity = 88\<rparr>
            = Inl kInvalidInput"
    by (simp add: eval_dynamic oversubscribed_puff_def cong: let_weak_cong)
  from a b c d e show ?thesis
    by (simp add: BuildHuffmanCodes_def BuildHuffmanReverseCodes_def)
qed

theorem InitHuffmanCodes_rejects_oversubscribed_witness:
  "list_all (\<lambda>len. len \<le> kMaxHuffmanBits) [2, 2, 2, 2, 2] \<and> (1::nat) \<le> 2
     \<and> 2 \<le> kMaxHuffmanBits \<and> 2 ^ 2 < len_counts [2, 2, 2, 2, 2] ! 2
     \<and> length [2, 2, 2, 2, 2::nat] < 65536 \<and> 2 ^ 2 < count_list [2, 2, 2, 2, 2] (2::nat)
     \<and> InitHuffmanCodes [2, 2, 2, 2, 2] = None"
proof -
  have h: "\<forall>len\<in>set [2, 2, 2, 2, 2::nat]. len \<le> kMaxHuffmanBits" "(1::nat) \<le> 2"
    "2 \<le> kMaxHuffmanBits"
    by (simp_all add: kMaxHuffmanBits_def)
  have c: "2 ^ 2 < count_list [2, 2, 2, 2, 2] (2::nat)" by simp
  have d: "2 ^ 2 < len_counts [2, 2, 2, 2, 2] ! 2"
    by (simp add: len_counts_nth kMaxHuffmanBits_def)
  from InitHuffmanCodes_rejects_oversubscribed [OF h] c d h show ?thesis
    by (simp add: list_all_iff)
qed

text \<open>
  C2, as stated: every array whose Kraft sum exceeds 1 is rejected. The array
  \<open>[1, 1, 2]\<close> has Kraft sum \<open>5/4\<close> and is accepted.
\<close>

theorem InitHuffmanCodes_kraft_counterexample:
  "1 < kraft_sum [1, 1, 2] \<and> InitHuffmanCodes [1, 1, 2] \<noteq> None"
  by (simp add: kraft_sum_def eval_init)

text \<open>
  C2, amended. Let the entries of \<open>lens\<close> be at most \<open>kMaxHuffmanBits\<close>. If the Kraft
  sum of \<open>lens\<close> is at most 1 then \<open>InitHuffmanCodes\<close> returns true. It returns false
  exactly when, for some length \<open>L\<close> from 1 to \<open>kMaxHuffmanBits\<close>, the number of
  entries of \<open>lens\<close> equal to \<open>L\<close>, as the 16-bit counter holds it (modulo 65536),
  exceeds \<open>2^L\<close>; for an array of fewer than 65536 entries that is: exactly when more
  than \<open>2^L\<close> entries of \<open>lens\<close> are equal to \<open>L\<close>, for some such \<open>L\<close>.
\<close>

theorem InitHuffmanCodes_kraft:
  assumes "\<forall>len\<in>set lens. len \<le> kMaxHuffmanBits"
  shows "(kraft_sum lens \<le> 1 \<longrightarrow> InitHuffmanCodes lens \<noteq> None)
       \<and> (InitHuffmanCodes lens = None \<longleftrightarrow>
            (\<exists>L. 1 \<le> L \<and> L \<le> kMaxHuffmanBits \<and> 2 ^ L < u16 (count_list lens L)))
       \<and> (length lens < 65536 \<longrightarrow>
            (InitHuffmanCodes lens = None \<longleftrightarrow>
               (\<exists>L. 1 \<le> L \<and> L \<le> kMaxHuffmanBits \<and> 2 ^ L < count_list lens L)))"
proof -
  have iff: "InitHuffmanCodes lens = None \<longleftrightarrow>
               (\<exists>L. 1 \<le> L \<and> L \<le> kMaxHuffmanBits \<and> 2 ^ L < u16 (count_list lens L))"
    unfolding InitHuffmanCodes_None_iff by (auto simp: len_counts_nth u16_def)
  have "InitHuffmanCodes lens \<noteq> None" if k: "kraft_sum lens \<le> 1"
  proof
    assume "InitHuffmanCodes lens = None"
    with iff obtain L where L: "1 \<le> L" "L \<le> kMaxHuffmanBits" "2 ^ L < u16 (count_list lens L)"
      by blast
    have "u16 (count_list lens L) \<le> count_list lens L"
      by (simp add: u16_def)
    also have "\<dots> \<le> 2 ^ L"
      using k L(1) by (intro kraft_count_le) auto
    finally show False using L(3) by simp
  qed
  moreover have "u16 (count_list lens L) = count_list lens L" if "length lens < 65536" for L
    using count_list_le_length [of lens L] that by (simp add: u16_def)
  ultimately show ?thesis
    using iff by simp
qed

theorem InitHuffmanCodes_kraft_witness:
  "list_all (\<lambda>len. len \<le> kMaxHuffmanBits) [2, 1, 3, 3] \<and> kraft_sum [2, 1, 3, 3] \<le> 1
     \<and> length [2, 1, 3, 3::nat] < 65536
     \<and> InitHuffmanCodes [2, 1, 3, 3] \<noteq> None
     \<and> (\<nexists>L. 1 \<le> L \<and> L \<le> kMaxHuffmanBits \<and> 2 ^ L < count_list [2, 1, 3, 3] L)"
proof -
  have h: "\<forall>len\<in>set [2, 1, 3, 3::nat]. len \<le> kMaxHuffmanBits"
    by (simp add: kMaxHuffmanBits_def)
  have k: "kraft_sum [2, 1, 3, 3] \<le> 1"
    by (simp add: kraft_sum_def)
  have l: "length [2, 1, 3, 3::nat] < 65536" by simp
  note t = InitHuffmanCodes_kraft [OF h]
  from t k have a: "InitHuffmanCodes [2, 1, 3, 3] \<noteq> None"
    by blast
  with t l have "\<nexists>L. 1 \<le> L \<and> L \<le> kMaxHuffmanBits \<and> 2 ^ L < count_list [2, 1, 3, 3] L"
    by blast
  with a k h l show ?thesis
    by (simp add: list_all_iff)
qed


text \<open>
  C7. In the puff-to-bits direction of \<open>BuildHuffmanCodeLengths\<close>, whenever the loop
  is at a puff byte greater than 155 the function fails with \<open>InvalidInput\<close>,
  whatever the writer and the tables are: the test comes before the byte is mapped to a
  code and before anything is written for it. So when the function, run on the bytes
  \<open>pre\<close> alone, has read them all and asks for more input, a next byte above 155
  makes it fail with \<open>InvalidInput\<close>.
\<close>

theorem code_lengths_bw_rejects_above_155:
  "(idx < num_codes \<longrightarrow> index < length buffer \<longrightarrow> 155 < buffer ! index \<longrightarrow>
      loop_bw code_lens code_rcodes buffer num_codes (bw, index, idx, lens) = Inl kInvalidInput)
   \<and> (BuildHuffmanCodeLengths_bw code_lens code_rcodes pre bw num_codes = Inl kInsufficientInput
        \<longrightarrow> 155 < p
        \<longrightarrow> BuildHuffmanCodeLengths_bw code_lens code_rcodes (pre @ p # rest) bw num_codes
              = Inl kInvalidInput)"
proof -
  have a: "loop_bw code_lens code_rcodes buffer num_codes (bw, index, idx, lens)
             = Inl kInvalidInput"
    if "idx < num_codes" "index < length buffer" "155 < buffer ! index"
    using that by (simp add: loop_bw.simps step_bw_above_155)
  have b: "BuildHuffmanCodeLengths_bw code_lens code_rcodes (pre @ p # rest) bw num_codes
             = Inl kInvalidInput"
    if r: "BuildHuffmanCodeLengths_bw code_lens code_rcodes pre bw num_codes
             = Inl kInsufficientInput" and p: "155 < p"
  proof -
    from r have "loop_bw code_lens code_rcodes pre num_codes (bw, 0, 0, [])
                   = Inl kInsufficientInput"
      by (auto simp: BuildHuffmanCodeLengths_bw_def split: sum.splits)
    then have "loop_bw code_lens code_rcodes (pre @ p # rest) num_codes (bw, 0, 0, [])
                 = Inl kInvalidInput"
      using p by (intro loop_bw_next_byte_above_155) auto
    then show ?thesis
      by (simp add: BuildHuffmanCodeLengths_bw_def)
  qed
  from a b show ?thesis by blast
qed

theorem code_lengths_bw_rejects_above_155_witness:
  "BuildHuffmanCodeLengths_bw repeat_code_lens repeat_code_rcodes [0, 0]
       \<lparr>out_bits = [], capacity = 0\<rparr> 3 = Inl kInsufficientOutput
   \<and> BuildHuffmanCodeLengths_bw repeat_code_lens repeat_code_rcodes [0, 0]
       \<lparr>out_bits = [], capacity = 64\<rparr> 3 = Inl kInsufficientInput
   \<and> BuildHuffmanCodeLengths_bw repeat_code_lens repeat_code_rcodes ([0, 0] @ 156 # [7])
       \<lparr>out_bits = [], capacity = 64\<rparr> 3 = Inl kInvalidInput
   \<and> loop_bw repeat_code_lens repeat_code_rcodes [0, 200] 3
       (\<lparr>out_bits = [False, False], capacity = 2\<rparr>, 1, 1, [0]) = Inl kInvalidInput"
proof -
  have a: "BuildHuffmanCodeLengths_bw repeat_code_lens repeat_code_rcodes [0, 0]
       \<lparr>out_bits = [], capacity = 64\<rparr> 3 = Inl kInsufficientInput"
    by (simp add: eval_lengths repeat_code_lens_def repeat_code_rcodes_def
        cong: let_weak_cong)
  have b: "BuildHuffmanCodeLengths_bw repeat_code_lens repeat_code_rcodes [0, 0]
       \<lparr>out_bits = [], capacity = 0\<rparr> 3 = Inl kInsufficientOutput"
    by (simp add: eval_lengths repeat_code_lens_def repeat_code_rcodes_def
        cong: let_weak_cong)
  have c: "(1::nat) < 3" "(1::nat) < length [0, 200::nat]" "155 < [0, 200::nat] ! 1"
    by simp_all
  from code_lengths_bw_rejects_above_155 [where idx = 1 and num_codes = 3 and index = 1
      and buffer = "[0, 200]" and code_lens = repeat_code_lens
      and code_rcodes = repeat_code_rcodes and lens = "[0]" and pre = "[0, 0]" and p = 156
      and rest = "[7]"] a b c
  show ?thesis by simp
qed

text \<open>
  C10. When the header, the meta code lengths and both code-length sequences have been
  parsed from fewer bytes than the buffer holds, the puff-to-bits direction of
  \<open>BuildDynamicHuffmanTable\<close> fails with \<open>InvalidInput\<close>.
\<close>

theorem dynamic_table_bw_trailing_bytes:
  "dynamic_lengths_bw buffer bw = Inr (bw', index, table) \<Longrightarrow> index < length buffer
     \<Longrightarrow> BuildDynamicHuffmanTable_bw buffer bw = Inl kInvalidInput"
  by (simp add: BuildDynamicHuffmanTable_bw_def split: option.splits)

theorem dynamic_table_bw_trailing_bytes_witness:
  "\<exists>bw' index table.
      dynamic_lengths_bw (single_symbol_puff @ [0]) \<lparr>out_bits = [], capacity = 86\<rparr>
        = Inr (bw', index, table)
      \<and> index < length (single_symbol_puff @ [0])
      \<and> BuildDynamicHuffmanTable_bw (single_symbol_puff @ [0])
            \<lparr>out_bits = [], capacity = 86\<rparr> = Inl kInvalidInput"
proof -
  have "\<exists>bw' table.
      dynamic_lengths_bw (single_symbol_puff @ [0]) \<lparr>out_bits = [], capacity = 86\<rparr>
        = Inr (bw', 16, table)"
    by (simp add: eval_dynamic single_symbol_puff_def cong: let_weak_cong)
  then obtain bw' table where
    r: "dynamic_lengths_bw (single_symbol_puff @ [0]) \<lparr>out_bits = [], capacity = 86\<rparr>
          = Inr (bw', 16, table)"
    by blast
  have l: "16 < length (single_symbol_puff @ [0])"
    by (simp add: single_symbol_puff_def)
  from dynamic_table_bw_trailing_bytes [OF r l] r l show ?thesis by blast
qed

text \<open>
  C6. In both directions of \<open>BuildHuffmanCodeLengths\<close>, a copy-previous marker as
  the first element of the sequence makes the function fail with \<open>InvalidInput\<close>.
  Bits to puff: the first lookup in the meta table yields code 16 and the puff buffer
  has room for a byte. Puff to bits: the first puff byte is one of 16..19 and the writer
  has room for the Huffman code of 16. (Without that room the earlier test for output
  space fails first, see \<open>copy_previous_first_without_room\<close>.)
\<close>

theorem copy_previous_first_is_invalid:
  "(0 < num_codes \<longrightarrow> CacheBits max_bits br
      \<longrightarrow> CodeAlphabet code_lens code_hcodes (ReadBits max_bits br) = Some (16, nbits)
      \<longrightarrow> 0 < buf_len
      \<longrightarrow> BuildHuffmanCodeLengths_br code_lens code_hcodes br buf_len max_bits num_codes
            = Inl kInvalidInput)
   \<and> (0 < num_codes \<longrightarrow> buffer \<noteq> [] \<longrightarrow> 16 \<le> hd buffer \<longrightarrow> hd buffer \<le> 19
      \<longrightarrow> length (out_bits bw) + code_lens ! 16 \<le> capacity bw
      \<longrightarrow> BuildHuffmanCodeLengths_bw code_lens code_rcodes buffer bw num_codes
            = Inl kInvalidInput)"
proof -
  have a: "BuildHuffmanCodeLengths_br code_lens code_hcodes br buf_len max_bits num_codes
            = Inl kInvalidInput"
    if "0 < num_codes" "CacheBits max_bits br"
      "CodeAlphabet code_lens code_hcodes (ReadBits max_bits br) = Some (16, nbits)"
      "0 < buf_len"
    using that
    by (simp add: BuildHuffmanCodeLengths_br_def loop_br.simps step_br_copy_previous_first)
  have b: "BuildHuffmanCodeLengths_bw code_lens code_rcodes buffer bw num_codes
            = Inl kInvalidInput"
    if "0 < num_codes" "buffer \<noteq> []" "16 \<le> hd buffer" "hd buffer \<le> 19"
      "length (out_bits bw) + code_lens ! 16 \<le> capacity bw"
  proof -
    from that(2-4) have "0 < length buffer" "16 \<le> buffer ! 0" "buffer ! 0 \<le> 19"
      by (simp_all add: hd_conv_nth)
    with that(1,5) show ?thesis
      by (simp add: BuildHuffmanCodeLengths_bw_def loop_bw.simps step_bw_copy_previous_first)
  qed
  from a b show ?thesis by blast
qed

theorem copy_previous_first_is_invalid_witness:
  "CacheBits 2 [False, True]
   \<and> CodeAlphabet repeat_code_lens repeat_code_hcodes (ReadBits 2 [False, True]) = Some (16, 2)
   \<and> BuildHuffmanCodeLengths_br repeat_code_lens repeat_code_hcodes [False, True] 1 2 1
        = Inl kInvalidInput
   \<and> BuildHuffmanCodeLengths_bw repeat_code_lens repeat_code_rcodes [17]
        \<lparr>out_bits = [], capacity = 8\<rparr> 1 = Inl kInvalidInput"
proof -
  have h: "CacheBits 2 [False, True]"
    "CodeAlphabet repeat_code_lens repeat_code_hcodes (ReadBits 2 [False, True]) = Some (16, 2)"
    by (simp_all add: eval_bits repeat_code_lens_def repeat_code_hcodes_def)
  have k: "[17::nat] \<noteq> []" "16 \<le> hd [17::nat]" "hd [17::nat] \<le> 19"
    "length (out_bits \<lparr>out_bits = [], capacity = 8\<rparr>) + repeat_code_lens ! 16
       \<le> capacity \<lparr>out_bits = [], capacity = 8\<rparr>"
    by (simp_all add: repeat_code_lens_def)
  from copy_previous_first_is_invalid [where num_codes = 1 and max_bits = 2
      and br = "[False, True]" and code_lens = repeat_code_lens
      and code_hcodes = repeat_code_hcodes and nbits = 2 and buf_len = 1
      and buffer = "[17]" and bw = "\<lparr>out_bits = [], capacity = 8\<rparr>"
      and code_rcodes = repeat_code_rcodes] h k
  show ?thesis by simp
qed

text \<open>
  C9. Neither direction of \<open>BuildHuffmanCodeLengths\<close> checks that a run stays within
  \<open>num_codes\<close>. With \<open>num_codes = 2\<close> and the meta code above, a run of code 16
  (after one length), of code 17 and of code 18 each take \<open>idx\<close> past 2: the function
  returns true in both directions and \<open>lens\<close> has 4, 3 and 11 entries.
\<close>

theorem code_lengths_run_past_num_codes:
  "BuildHuffmanCodes repeat_code_lens = Some (repeat_code_hcodes, 2)
   \<and> BuildHuffmanReverseCodes repeat_code_lens 19 = Some (repeat_code_rcodes, 2)
   \<and> BuildHuffmanCodeLengths_br repeat_code_lens repeat_code_hcodes
        [False, False, False, True, False, False, True, True] 2 2 2
        = Inr ([True, True], [0, 16], [0, 0, 0, 0])
   \<and> BuildHuffmanCodeLengths_br repeat_code_lens repeat_code_hcodes
        [True, False, False, False, False, True, True] 1 2 2
        = Inr ([True, True], [20], [0, 0, 0])
   \<and> BuildHuffmanCodeLengths_br repeat_code_lens repeat_code_hcodes
        [True, True, False, False, False, False, False, False, False, True, True] 1 2 2
        = Inr ([True, True], [28], [0, 0, 0, 0, 0, 0, 0, 0, 0, 0, 0])
   \<and> BuildHuffmanCodeLengths_bw repeat_code_lens repeat_code_rcodes [0, 16]
        \<lparr>out_bits = [], capacity = 16\<rparr> 2
        = Inr (\<lparr>out_bits = [False, False, False, True, False, False], capacity = 16\<rparr>,
               2, [0, 0, 0, 0])
   \<and> BuildHuffmanCodeLengths_bw repeat_code_lens repeat_code_rcodes [20]
        \<lparr>out_bits = [], capacity = 16\<rparr> 2
        = Inr (\<lparr>out_bits = [True, False, False, False, False], capacity = 16\<rparr>,
               1, [0, 0, 0])
   \<and> BuildHuffmanCodeLengths_bw repeat_code_lens repeat_code_rcodes [28]
        \<lparr>out_bits = [], capacity = 16\<rparr> 2
        = Inr (\<lparr>out_bits = [True, True, False, False, False, False, False, False, False],
                 capacity = 16\<rparr>,
               1, [0, 0, 0, 0, 0, 0, 0, 0, 0, 0, 0])
   \<and> 2 < length [0, 0, 0::nat]"
proof -
  have "BuildHuffmanCodeLengths_br repeat_code_lens repeat_code_hcodes
        [False, False, False, True, False, False, True, True] 2 2 2
        = Inr ([True, True], [0, 16], [0, 0, 0, 0])"
    by (simp add: eval_lengths repeat_code_lens_def repeat_code_hcodes_def replicate_numeral
        cong: let_weak_cong)
  moreover have "BuildHuffmanCodeLengths_br repeat_code_lens repeat_code_hcodes
        [True, False, False, False, False, True, True] 1 2 2
        = Inr ([True, True], [20], [0, 0, 0])"
    by (simp add: eval_lengths repeat_code_lens_def repeat_code_hcodes_def replicate_numeral
        cong: let_weak_cong)
  moreover have "BuildHuffmanCodeLengths_br repeat_code_lens repeat_code_hcodes
        [True, True, False, False, False, False, False, False, False, True, True] 1 2 2
        = Inr ([True, True], [28], [0, 0, 0, 0, 0, 0, 0, 0, 0, 0, 0])"
    by (simp add: eval_lengths repeat_code_lens_def repeat_code_hcodes_def replicate_numeral
        cong: let_weak_cong)
  moreover have "BuildHuffmanCodeLengths_bw repeat_code_lens repeat_code_rcodes [0, 16]
        \<lparr>out_bits = [], capacity = 16\<rparr> 2
        = Inr (\<lparr>out_bits = [False, False, False, True, False, False], capacity = 16\<rparr>,
               2, [0, 0, 0, 0])"
    by (simp add: eval_lengths repeat_code_lens_def repeat_code_rcodes_def replicate_numeral
        cong: let_weak_cong)
  moreover have "BuildHuffmanCodeLengths_bw repeat_code_lens repeat_code_rcodes [20]
        \<lparr>out_bits = [], capacity = 16\<rparr> 2
        = Inr (\<lparr>out_bits = [True, False, False, False, False], capacity = 16\<rparr>,
               1, [0, 0, 0])"
    by (simp add: eval_lengths repeat_code_lens_def repeat_code_rcodes_def replicate_numeral
        cong: let_weak_cong)
  moreover have "BuildHuffmanCodeLengths_bw repeat_code_lens repeat_code_rcodes [28]
        \<lparr>out_bits = [], capacity = 16\<rparr> 2
        = Inr (\<lparr>out_bits = [True, True, False, False, False, False, False, False, False],
                 capacity = 16\<rparr>,
               1, [0, 0, 0, 0, 0, 0, 0, 0, 0, 0, 0])"
    by (simp add: eval_lengths repeat_code_lens_def repeat_code_rcodes_def replicate_numeral
        cong: let_weak_cong)
  ultimately show ?thesis
    using repeat_tables by simp
qed


text \<open>
  C4. Let \<open>InitHuffmanCodes\<close> accept \<open>lens\<close>, an array of fewer than 65536 entries,
  each at most \<open>kMaxHuffmanBits\<close>. Let \<open>len_count L\<close> be the number of entries of
  \<open>lens\<close> equal to \<open>L\<close> for \<open>L \<ge> 1\<close>, and 0 for \<open>L = 0\<close>: these are the counters
  of the code after \<open>len_count_[0]\<close> has been reset. The first codes satisfy
  \<open>next_code[0] = 0\<close> and
  \<open>next_code[L] = (next_code[L-1] + len_count[L-1]) << 1\<close> in 16-bit arithmetic for
  \<open>L\<close> from 1 to \<open>kMaxHuffmanBits\<close>. The pairs are those of the symbols of nonzero
  length, in ascending symbol order; the code of symbol \<open>s\<close> of length \<open>len\<close> is
  the first code of \<open>len\<close> plus the number of earlier symbols of that length, with its
  low \<open>len\<close> bits in reverse order and no bit above them. In terms of the canonical
  code of the specification, computed on unbounded numbers: \<open>next_code[L]\<close> is
  \<open>spec_next_code lens L\<close> truncated to 16 bits, and the code stored for \<open>s\<close> is
  \<open>canonical_code lens s\<close> reversed over \<open>len\<close> bits.
\<close>

theorem InitHuffmanCodes_canonical:
  assumes "\<forall>len\<in>set lens. len \<le> kMaxHuffmanBits" and "length lens < 65536"
    and "InitHuffmanCodes lens = Some (codeindexpairs, max_bits)"
  shows "(let len_count = (\<lambda>L. if L = 0 then 0 else count_list lens L);
              next_code = first_codes ((len_counts lens)[0 := 0]) in
     (\<forall>L. L \<le> kMaxHuffmanBits \<longrightarrow> (len_counts lens)[0 := 0] ! L = len_count L)
     \<and> next_code ! 0 = 0
     \<and> (\<forall>L. 1 \<le> L \<and> L \<le> kMaxHuffmanBits \<longrightarrow>
           next_code ! L = u16 (push_bit 1 (next_code ! (L - 1) + len_count (L - 1))))
     \<and> (\<forall>L. L \<le> kMaxHuffmanBits \<longrightarrow> next_code ! L = u16 (spec_next_code lens L))
     \<and> map cip_index codeindexpairs = filter (\<lambda>s. lens ! s \<noteq> 0) [0..<length lens]
     \<and> (\<forall>cip\<in>set codeindexpairs.
           cip_code cip = reversed_bits (lens ! cip_index cip)
             (u16 (next_code ! (lens ! cip_index cip) + rank_in_length lens (cip_index cip)))
           \<and> cip_code cip
               = reversed_bits (lens ! cip_index cip) (canonical_code lens (cip_index cip))
           \<and> cip_code cip < 2 ^ (lens ! cip_index cip)))"
proof -
  let ?lc = "(len_counts lens)[0 := 0]"
  let ?nc = "first_codes ?lc"
  let ?len_count = "\<lambda>L. if L = 0 then 0 else count_list lens L"
  have le: "length lens \<le> 65536" using assms(2) by simp
  have cnt: "?lc ! L = ?len_count L" if "L \<le> kMaxHuffmanBits" for L
  proof (cases "L = 0")
    case True
    then show ?thesis by (simp add: length_len_counts)
  next
    case False
    have "count_list lens L < 65536"
      using count_list_le_length [of lens L] assms(2) by simp
    with False that show ?thesis by (simp add: len_counts_nth)
  qed
  have a: "?nc ! 0 = 0" by (rule first_codes_props(2))
  have b: "?nc ! L = u16 (push_bit 1 (?nc ! (L - 1) + ?len_count (L - 1)))"
    if "1 \<le> L \<and> L \<le> kMaxHuffmanBits" for L
  proof -
    from that have "?nc ! L = u16 (push_bit 1 (?nc ! (L - 1) + ?lc ! (L - 1)))"
      using first_codes_props(3) by blast
    moreover from that have "L - 1 \<le> kMaxHuffmanBits" by arith
    then have "?lc ! (L - 1) = ?len_count (L - 1)" by (rule cnt)
    ultimately show ?thesis by (simp only:)
  qed
  have c: "map cip_index codeindexpairs = filter (\<lambda>s. lens ! s \<noteq> 0) [0..<length lens]"
    using assms(3) le by (rule InitHuffmanCodes_index)
  have d: "cip_code cip = reversed_bits (lens ! cip_index cip)
             (u16 (?nc ! (lens ! cip_index cip) + rank_in_length lens (cip_index cip)))
           \<and> cip_code cip
               = reversed_bits (lens ! cip_index cip) (canonical_code lens (cip_index cip))
           \<and> cip_code cip < 2 ^ (lens ! cip_index cip)"
    if "cip \<in> set codeindexpairs" for cip
    using InitHuffmanCodes_member(3) [OF assms(3,1) le that]
      InitHuffmanCodes_canonical_code [OF assms(3,1) le that] reversed_bits_less by simp
  have e: "?nc ! L = u16 (spec_next_code lens L)" if "L \<le> kMaxHuffmanBits" for L
    using that by (rule first_codes_spec)
  from cnt a b c d e show ?thesis
    unfolding Let_def by blast
qed

theorem InitHuffmanCodes_canonical_witness:
  "list_all (\<lambda>len. len \<le> kMaxHuffmanBits) [2, 1, 3, 3] \<and> length [2, 1, 3, 3::nat] < 65536
   \<and> InitHuffmanCodes [2, 1, 3, 3]
       = Some ([CodeIndexPair 1 0, CodeIndexPair 0 1, CodeIndexPair 3 2, CodeIndexPair 7 3], 3)
   \<and> (len_counts [2, 1, 3, 3])[0 := 0] ! 3 = count_list [2, 1, 3, 3::nat] 3
   \<and> first_codes ((len_counts [2, 1, 3, 3])[0 := 0]) ! 0 = 0
   \<and> first_codes ((len_counts [2, 1, 3, 3])[0 := 0]) ! 3
       = u16 (push_bit 1 (first_codes ((len_counts [2, 1, 3, 3])[0 := 0]) ! 2
                          + count_list [2, 1, 3, 3::nat] 2))
   \<and> map cip_index [CodeIndexPair 1 0, CodeIndexPair 0 1, CodeIndexPair 3 2, CodeIndexPair 7 3]
       = filter (\<lambda>s. [2, 1, 3, 3::nat] ! s \<noteq> 0) [0..<length [2, 1, 3, 3::nat]]
   \<and> cip_code (CodeIndexPair 7 3)
       = reversed_bits ([2, 1, 3, 3] ! 3)
           (u16 (first_codes ((len_counts [2, 1, 3, 3])[0 := 0]) ! ([2, 1, 3, 3] ! 3)
                 + rank_in_length [2, 1, 3, 3] 3))
   \<and> cip_code (CodeIndexPair 7 3)
       = reversed_bits ([2, 1, 3, 3] ! 3) (canonical_code [2, 1, 3, 3] 3)"
proof -
  have h: "\<forall>len\<in>set [2, 1, 3, 3::nat]. len \<le> kMaxHuffmanBits"
    by (simp add: kMaxHuffmanBits_def)
  have l: "length [2, 1, 3, 3::nat] < 65536" by simp
  have i: "InitHuffmanCodes [2, 1, 3, 3]
       = Some ([CodeIndexPair 1 0, CodeIndexPair 0 1, CodeIndexPair 3 2, CodeIndexPair 7 3], 3)"
    by (simp add: eval_init)
  have k: "(3::nat) \<le> kMaxHuffmanBits" by (simp add: kMaxHuffmanBits_def)
  let ?nc = "first_codes ((len_counts [2, 1, 3, 3])[0 := 0])"
  note t = InitHuffmanCodes_canonical [OF h l i, unfolded Let_def]
  from t k have z: "(len_counts [2, 1, 3, 3])[0 := 0] ! 3
                      = (if (3::nat) = 0 then 0 else count_list [2, 1, 3, 3::nat] 3)"
    by (elim conjE allE [of _ 3]) simp
  from t have a: "?nc ! 0 = 0" by (elim conjE)
  from t k have b: "?nc ! 3 = u16 (push_bit 1 (?nc ! (3 - 1)
                      + (if (3::nat) - 1 = 0 then 0 else count_list [2, 1, 3, 3::nat] (3 - 1))))"
    by (elim conjE allE [of _ 3]) simp
  from t have c: "map cip_index
        [CodeIndexPair 1 0, CodeIndexPair 0 1, CodeIndexPair 3 2, CodeIndexPair 7 3]
       = filter (\<lambda>s. [2, 1, 3, 3::nat] ! s \<noteq> 0) [0..<length [2, 1, 3, 3::nat]]"
    by (elim conjE)
  from t have d: "cip_code (CodeIndexPair 7 3)
       = reversed_bits ([2, 1, 3, 3] ! cip_index (CodeIndexPair 7 3))
           (u16 (?nc ! ([2, 1, 3, 3] ! cip_index (CodeIndexPair 7 3))
                 + rank_in_length [2, 1, 3, 3] (cip_index (CodeIndexPair 7 3))))"
    by (elim conjE) simp
  from t have e: "cip_code (CodeIndexPair 7 3)
       = reversed_bits ([2, 1, 3, 3] ! cip_index (CodeIndexPair 7 3))
           (canonical_code [2, 1, 3, 3] (cip_index (CodeIndexPair 7 3)))"
    by (elim conjE) simp
  from z a b c d e h i l show ?thesis
    by (simp add: list_all_iff)
qed






text \<open>
  C3, as stated: in every forward table built from an accepted array, every index whose
  low \<open>lens[s]\<close> bits are the reversed code of a symbol \<open>s\<close> holds \<open>s\<close>. The
  array \<open>[1, 1, 2]\<close> is accepted; its symbol 2 has the canonical code 4, which does
  not fit in 2 bits and whose 2 reversed bits are 0, the pair that the code stores for
  it. Index 0 of the table holds symbol 0, decoded with 1 bit, and no entry of the table
  holds symbol 2.
\<close>

theorem BuildHuffmanCodes_forward_table_counterexample:
  "BuildHuffmanCodes [1, 1, 2] = Some ([32768, 32769, 32768, 32769], 2)
   \<and> InitHuffmanCodes [1, 1, 2]
       = Some ([CodeIndexPair 0 0, CodeIndexPair 1 1, CodeIndexPair 0 2], 2)
   \<and> (2::nat) < length [1, 1, 2::nat] \<and> 0 < [1, 1, 2::nat] ! 2
   \<and> canonical_code [1, 1, 2] 2 = 4
   \<and> (0::nat) < 2 ^ 2
   \<and> 0 mod 2 ^ ([1, 1, 2] ! 2) = reversed_bits ([1, 1, 2] ! 2) (canonical_code [1, 1, 2] 2)
   \<and> [32768, 32769, 32768, 32769] ! 0 AND 0x7FFF \<noteq> (2::nat)
   \<and> CodeAlphabet [1, 1, 2] [32768, 32769, 32768, 32769] 0 = Some (0, 1)
   \<and> list_all (\<lambda>hc. hc AND 0x7FFF \<noteq> (2::nat)) [32768, 32769, 32768, 32769]"
proof -
  have a: "BuildHuffmanCodes [1, 1, 2] = Some ([32768, 32769, 32768, 32769], 2)"
    by (simp add: eval_tables)
  have b: "InitHuffmanCodes [1, 1, 2]
       = Some ([CodeIndexPair 0 0, CodeIndexPair 1 1, CodeIndexPair 0 2], 2)"
    by (simp add: eval_init)
  have c: "canonical_code [1, 1, 2] 2 = 4"
    by (simp add: canonical_code_def rank_in_length_def spec_next_code_numeral)
  have d: "reversed_bits 2 4 = 0"
    by (simp add: reversed_bits_def value_bits_numeral)
  have e: "CodeAlphabet [1, 1, 2] [32768, 32769, 32768, 32769] 0 = Some (0, 1)"
    by (simp add: CodeAlphabet_def)
  have f: "[32768, 32769, 32768, 32769] ! 0 AND 0x7FFF \<noteq> (2::nat)"
    by simp
  have g: "list_all (\<lambda>hc. hc AND 0x7FFF \<noteq> (2::nat)) [32768, 32769, 32768, 32769]"
    by simp
  from a b c d e f g show ?thesis by simp
qed

text \<open>
  C3, amended. Let \<open>lens\<close> have at most 32768 entries, each at most
  \<open>kMaxHuffmanBits\<close>, and Kraft sum at most 1. Then \<open>BuildHuffmanCodes\<close> succeeds
  with a table of \<open>2^max_bits\<close> entries; the pair of every symbol holds its
  canonical code reversed over its length; and for every symbol \<open>s\<close> of nonzero
  length, every index below \<open>2^max_bits\<close> whose low \<open>lens[s]\<close> bits are that
  reversed code holds an entry with the valid bit set and the symbol \<open>s\<close>, so that
  the lookup returns \<open>s\<close> and \<open>lens[s]\<close> bits.
\<close>

theorem BuildHuffmanCodes_forward_table:
  assumes "\<forall>len\<in>set lens. len \<le> kMaxHuffmanBits" and "length lens \<le> 32768"
    and "kraft_sum lens \<le> 1"
  shows "\<exists>hcodes max_bits codeindexpairs.
     BuildHuffmanCodes lens = Some (hcodes, max_bits)
     \<and> InitHuffmanCodes lens = Some (codeindexpairs, max_bits)
     \<and> length hcodes = 2 ^ max_bits
     \<and> (\<forall>cip\<in>set codeindexpairs.
           cip_code cip
             = reversed_bits (lens ! cip_index cip) (canonical_code lens (cip_index cip)))
     \<and> (\<forall>s<length lens. 0 < lens ! s \<longrightarrow>
           lens ! s \<le> max_bits
           \<and> (\<exists>cip\<in>set codeindexpairs. cip_index cip = s)
           \<and> (\<forall>i<2 ^ max_bits.
                 i mod 2 ^ (lens ! s) = reversed_bits (lens ! s) (canonical_code lens s) \<longrightarrow>
                 hcodes ! i AND 0x8000 \<noteq> 0 \<and> hcodes ! i AND 0x7FFF = s
                 \<and> CodeAlphabet lens hcodes i = Some (s, lens ! s)))"
proof -
  from assms(2) have n1: "length lens < 65536" and n2: "length lens \<le> 65536" by simp_all
  from InitHuffmanCodes_accepts_kraft [OF assms(3)]
  obtain cips mb where ini: "InitHuffmanCodes lens = Some (cips, mb)" by auto
  then obtain hcodes where b: "BuildHuffmanCodes lens = Some (hcodes, mb)"
    by (simp add: BuildHuffmanCodes_def)
  have l: "length hcodes = 2 ^ mb" using b by (rule length_BuildHuffmanCodes)
  have c: "\<forall>cip\<in>set cips.
             cip_code cip
               = reversed_bits (lens ! cip_index cip) (canonical_code lens (cip_index cip))"
    using InitHuffmanCodes_canonical_code [OF ini assms(1) n2] by blast
  have e: "lens ! s \<le> mb \<and> (\<exists>cip\<in>set cips. cip_index cip = s)
           \<and> (\<forall>i<2 ^ mb.
                 i mod 2 ^ (lens ! s) = reversed_bits (lens ! s) (canonical_code lens s) \<longrightarrow>
                 hcodes ! i AND 0x8000 \<noteq> 0 \<and> hcodes ! i AND 0x7FFF = s
                 \<and> CodeAlphabet lens hcodes i = Some (s, lens ! s))"
    if s: "s < length lens" "0 < lens ! s" for s
  proof -
    have 1: "lens ! s \<le> mb" using ini assms(1) n1 s(1) by (rule InitHuffmanCodes_max_bits)
    from s(2) have "lens ! s \<noteq> 0" by simp
    with ini n2 s(1) have 2: "\<exists>cip\<in>set cips. cip_index cip = s"
      by (rule InitHuffmanCodes_symbol)
    from s(1) assms(2) have s15: "s < 32768" by simp
    have 3: "hcodes ! i AND 0x8000 \<noteq> 0 \<and> hcodes ! i AND 0x7FFF = s
             \<and> CodeAlphabet lens hcodes i = Some (s, lens ! s)"
      if i: "i < 2 ^ mb"
        and m: "i mod 2 ^ (lens ! s) = reversed_bits (lens ! s) (canonical_code lens s)" for i
    proof -
      have h: "hcodes ! i = s + 32768"
        using assms b s i m by (rule forward_table_entry)
      have v: "(s + 32768) AND 0x8000 \<noteq> 0" using s15 by (rule entry_valid)
      have sy: "(s + 32768) AND 0x7FFF = s" using s15 by (rule entry_symbol)
      from v sy show ?thesis by (simp add: CodeAlphabet_def h)
    qed
    from 1 2 3 show ?thesis by blast
  qed
  from b ini l c e show ?thesis by blast
qed

theorem BuildHuffmanCodes_forward_table_witness:
  "list_all (\<lambda>len. len \<le> kMaxHuffmanBits) [2, 1, 3, 3] \<and> length [2, 1, 3, 3::nat] \<le> 32768
   \<and> kraft_sum [2, 1, 3, 3] \<le> 1
   \<and> BuildHuffmanCodes [2, 1, 3, 3]
       = Some ([32769, 32768, 32769, 32770, 32769, 32768, 32769, 32771], 3)
   \<and> (0::nat) < length [2, 1, 3, 3::nat] \<and> 0 < [2, 1, 3, 3::nat] ! 0 \<and> (5::nat) < 2 ^ 3
   \<and> 5 mod 2 ^ ([2, 1, 3, 3] ! 0)
       = reversed_bits ([2, 1, 3, 3] ! 0) (canonical_code [2, 1, 3, 3] 0)
   \<and> [32769, 32768, 32769, 32770, 32769, 32768, 32769, 32771] ! 5 AND 0x8000 \<noteq> (0::nat)
   \<and> [32769, 32768, 32769, 32770, 32769, 32768, 32769, 32771] ! 5 AND 0x7FFF = (0::nat)
   \<and> CodeAlphabet [2, 1, 3, 3] [32769, 32768, 32769, 32770, 32769, 32768, 32769, 32771] 5
       = Some (0, 2)"
proof -
  let ?lens = "[2, 1, 3, 3::nat]"
  let ?H = "[32769, 32768, 32769, 32770, 32769, 32768, 32769, 32771::nat]"
  have h: "\<forall>len\<in>set ?lens. len \<le> kMaxHuffmanBits"
    by (simp add: kMaxHuffmanBits_def)
  have n: "length ?lens \<le> 32768" by simp
  have k: "kraft_sum ?lens \<le> 1" by (simp add: kraft_sum_def)
  have b: "BuildHuffmanCodes ?lens = Some (?H, 3)"
    by (simp add: eval_tables)
  have m: "5 mod 2 ^ (?lens ! 0) = reversed_bits (?lens ! 0) (canonical_code ?lens 0)"
    by (simp add: canonical_code_def rank_in_length_def spec_next_code_numeral
          reversed_bits_def value_bits_numeral)
  from BuildHuffmanCodes_forward_table [OF h n k] b
  have "\<forall>s<length ?lens. 0 < ?lens ! s \<longrightarrow>
           (\<forall>i<2 ^ 3.
                 i mod 2 ^ (?lens ! s) = reversed_bits (?lens ! s) (canonical_code ?lens s) \<longrightarrow>
                 ?H ! i AND 0x8000 \<noteq> 0 \<and> ?H ! i AND 0x7FFF = s
                 \<and> CodeAlphabet ?lens ?H i = Some (s, ?lens ! s))"
    by auto
  then have "(\<forall>i<2 ^ 3.
                 i mod 2 ^ (?lens ! 0) = reversed_bits (?lens ! 0) (canonical_code ?lens 0) \<longrightarrow>
                 ?H ! i AND 0x8000 \<noteq> 0 \<and> ?H ! i AND 0x7FFF = 0
                 \<and> CodeAlphabet ?lens ?H i = Some (0, ?lens ! 0))"
    by (elim allE [of _ 0]) simp
  then have "?H ! 5 AND 0x8000 \<noteq> 0 \<and> ?H ! 5 AND 0x7FFF = 0
                 \<and> CodeAlphabet ?lens ?H 5 = Some (0, ?lens ! 0)"
    using m by (elim allE [of _ 5]) simp
  with h n k b m show ?thesis
    by (simp add: list_all_iff)
qed

end
